theory Spec2Isabelle
  imports Complex_Main "HOL-Library.Multiset"
begin

section \<open>Conventions of the embedding\<close>

text \<open>
  The dungeon core of the repository is JavaScript. Its values are modelled as follows.

  \<^item> Tile coordinates, sizes, indices and counters are integers of the source; they are
    \<open>int\<close> here (or \<open>nat\<close> for array positions).
  \<^item> A JavaScript double that is not an integer by construction (a slope, a cost, a draw
    of \<open>Math.random()\<close>) is a \<open>real\<close>. Rounding of doubles is not modelled: a
    product or a sum of doubles is the exact real here, where the source rounds it to a
    double before \<open>Math.floor\<close> or \<open>Math.ceil\<close> is taken. The two can differ by one
    when the exact value lies just below an integer (\<open>0.6666666666666666 * 6\<close> is
    \<open>4.0\<close> as a double and below 4 as a real). This concerns the room sizes and
    positions of \<open>generateRoom\<close>, the index of \<open>getSpecialFloorType\<close>, the columns
    of \<open>castRows\<close> and \<open>castCells\<close> next to a wall, and the item count and item
    quality of \<open>ItemPlacer\<close>. Each place where a claim could depend on it says why it
    does not.
  \<^item> The map is the array of rows \<open>map[y][x]\<close> that \<open>MapGenerator.initializeMap\<close>
    builds: \<open>height\<close> rows of \<open>width\<close> tile objects. It is modelled as a function from
    the coordinate \<open>(x, y)\<close> to the tile stored there; a write \<open>map[y][x].f = v\<close> is a
    function update at \<open>(x, y)\<close>. The source reads the array only behind a bounds check
    against the same \<open>width\<close> and \<open>height\<close>, except where noted; an unguarded read
    outside the array raises a \<open>TypeError\<close> in JavaScript and is an explicit error
    branch of the model.
  \<^item> \<open>Math.random()\<close> is a stream of draws, threaded through every function that
    calls it: \<open>random r\<close> returns the next draw and the rest of the stream.
\<close>

datatype error = TypeError | SyntaxError

type_synonym rng = "nat \<Rightarrow> real"

definition random :: "rng \<Rightarrow> real \<times> rng" where
  "random r = (r 0, \<lambda>n. r (Suc n))"


section \<open>Constants.js\<close>

definition MAP_WIDTH :: int where "MAP_WIDTH = 80"
definition MAP_HEIGHT :: int where "MAP_HEIGHT = 50"

definition WALL :: string where "WALL = ''#''"
definition FLOOR :: string where "FLOOR = ''.''"
definition STAIRS :: string where "STAIRS = ''>''"
definition DOOR :: string where "DOOR = ''+''"
definition LOCKED_DOOR :: string where "LOCKED_DOOR = ''L''"
definition SECRET_DOOR :: string where "SECRET_DOOR = ''S''"
definition TRAP :: string where "TRAP = ''^''"

lemmas TILE_TYPES =
  WALL_def FLOOR_def STAIRS_def DOOR_def LOCKED_DOOR_def SECRET_DOOR_def TRAP_def


section \<open>Tile.js\<close>

text \<open>
  The fields of a tile that the modelled code reads or writes. \<open>item\<close> is \<open>null\<close>
  or \<open>true\<close> in the source and a boolean here; \<open>trapData\<close> is \<open>null\<close> or a trap
  record, of which only the presence is read by the modelled code.
\<close>

record tile =
  char :: string
  discovered :: bool
  visible :: bool
  floorType :: string
  item :: bool
  hidden :: bool
  trapData :: "(string \<times> int) option"

definition Tile :: "string \<Rightarrow> tile" where
  "Tile c = \<lparr>char = c, discovered = False, visible = False, floorType = ''default'',
             item = False, hidden = False, trapData = None\<rparr>"

definition isBlocking :: "tile \<Rightarrow> bool" where
  "isBlocking t = (char t = WALL)"

definition blocksVision :: "tile \<Rightarrow> bool" where
  "blocksVision t = (char t = WALL)"

definition isWalkable :: "tile \<Rightarrow> bool" where
  "isWalkable t = (\<not> isBlocking t \<and> char t \<noteq> TRAP)"

definition isInteractive :: "tile \<Rightarrow> bool" where
  "isInteractive t =
     (char t = DOOR \<or> char t = LOCKED_DOOR \<or> char t = SECRET_DOOR \<or> char t = STAIRS)"

type_synonym grid = "int \<times> int \<Rightarrow> tile"


section \<open>CorridorGenerator: carving\<close>

text \<open>
  \<open>hCorridor(map, x1, x2, y)\<close> and \<open>vCorridor(map, y1, y2, x)\<close> of a generator built
  with \<open>width\<close> and \<open>height\<close>. \<open>carve\<close> is the body of both loops: the bounds check
  and the wall test around the single write.
\<close>

definition carve :: "int \<Rightarrow> int \<Rightarrow> int \<Rightarrow> int \<Rightarrow> grid \<Rightarrow> grid" where
  "carve width height x y m =
     (if x \<ge> 0 \<and> x < width \<and> y \<ge> 0 \<and> y < height then
        (if char (m (x, y)) = WALL then m((x, y) := (m (x, y))\<lparr>char := FLOOR\<rparr>) else m)
      else m)"

definition hCorridor :: "int \<Rightarrow> int \<Rightarrow> grid \<Rightarrow> int \<Rightarrow> int \<Rightarrow> int \<Rightarrow> grid" where
  "hCorridor width height m x1 x2 y =
     (let start = min x1 x2; end = max x1 x2
      in fold (\<lambda>x m. carve width height x y m) [start..end] m)"

definition vCorridor :: "int \<Rightarrow> int \<Rightarrow> grid \<Rightarrow> int \<Rightarrow> int \<Rightarrow> int \<Rightarrow> grid" where
  "vCorridor width height m y1 y2 x =
     (let start = min y1 y2; end = max y1 y2
      in fold (\<lambda>y m. carve width height x y m) [start..end] m)"


section \<open>Tile: passability and vision\<close>

text \<open>
  C3, as the code has it. The terrain kind alone decides the three predicates: a wall
  blocks movement and vision; the three door kinds and the stairs block neither and are
  walkable; a trap blocks neither movement nor vision, but \<open>isWalkable\<close> excludes it
  explicitly and returns false.
\<close>

theorem tile_kind_determines_passability:
  "(isBlocking t = (char t = WALL)) \<and> (blocksVision t = (char t = WALL)) \<and>
   (isWalkable t = (char t \<noteq> WALL \<and> char t \<noteq> TRAP)) \<and>
   isBlocking (Tile WALL) \<and> blocksVision (Tile WALL) \<and> \<not> isWalkable (Tile WALL) \<and>
   \<not> isBlocking (Tile DOOR) \<and> \<not> blocksVision (Tile DOOR) \<and> isWalkable (Tile DOOR) \<and>
   \<not> isBlocking (Tile TRAP) \<and> \<not> blocksVision (Tile TRAP) \<and> \<not> isWalkable (Tile TRAP)"
  by (simp add: isBlocking_def blocksVision_def isWalkable_def Tile_def TILE_TYPES)

text \<open>
  C3 as the specification states it fails: a tile whose terrain kind is trap is not
  walkable.
\<close>

theorem trap_walkable_counterexample:
  "char (Tile TRAP) = TRAP \<and> \<not> isWalkable (Tile TRAP)"
  by (simp add: isWalkable_def isBlocking_def Tile_def TILE_TYPES)


section \<open>Corridor carving: walls to floor only, idempotent, order-independent\<close>

text \<open>
  A carving call is described by the set of in-bounds cells of its segment: \<open>dig S\<close>
  turns every wall tile of \<open>S\<close> into floor and leaves every other tile as it is.
\<close>

lemma carve_apply:
  "carve w h x y m p =
     (if p = (x, y) \<and> 0 \<le> x \<and> x < w \<and> 0 \<le> y \<and> y < h \<and> char (m p) = WALL
      then (m p)\<lparr>char := FLOOR\<rparr> else m p)"
  by (auto simp: carve_def)

lemma FLOOR_neq_WALL: "FLOOR \<noteq> WALL" by (simp add: TILE_TYPES)

lemma fold_carve_row:
  "fold (\<lambda>x m. carve w h x y m) xs m p =
     (if fst p \<in> set xs \<and> snd p = y \<and> 0 \<le> fst p \<and> fst p < w \<and> 0 \<le> y \<and> y < h
         \<and> char (m p) = WALL
      then (m p)\<lparr>char := FLOOR\<rparr> else m p)"
proof (induction xs arbitrary: m)
  case Nil
  show ?case by simp
next
  case (Cons a xs)
  have "fold (\<lambda>x m. carve w h x y m) (a # xs) m p =
        fold (\<lambda>x m. carve w h x y m) xs (carve w h a y m) p" by simp
  also have "\<dots> = (if fst p \<in> set xs \<and> snd p = y \<and> 0 \<le> fst p \<and> fst p < w \<and> 0 \<le> y \<and> y < h
         \<and> char (carve w h a y m p) = WALL
      then (carve w h a y m p)\<lparr>char := FLOOR\<rparr> else carve w h a y m p)"
    by (rule Cons.IH)
  also have "\<dots> = (if fst p \<in> set (a # xs) \<and> snd p = y \<and> 0 \<le> fst p \<and> fst p < w \<and> 0 \<le> y \<and> y < h
         \<and> char (m p) = WALL
      then (m p)\<lparr>char := FLOOR\<rparr> else m p)"
    by (auto simp: carve_apply prod_eq_iff FLOOR_neq_WALL)
  finally show ?case .
qed

lemma fold_carve_col:
  "fold (\<lambda>y m. carve w h x y m) ys m p =
     (if snd p \<in> set ys \<and> fst p = x \<and> 0 \<le> x \<and> x < w \<and> 0 \<le> snd p \<and> snd p < h
         \<and> char (m p) = WALL
      then (m p)\<lparr>char := FLOOR\<rparr> else m p)"
proof (induction ys arbitrary: m)
  case Nil
  show ?case by simp
next
  case (Cons a ys)
  have "fold (\<lambda>y m. carve w h x y m) (a # ys) m p =
        fold (\<lambda>y m. carve w h x y m) ys (carve w h x a m) p" by simp
  also have "\<dots> = (if snd p \<in> set ys \<and> fst p = x \<and> 0 \<le> x \<and> x < w \<and> 0 \<le> snd p \<and> snd p < h
         \<and> char (carve w h x a m p) = WALL
      then (carve w h x a m p)\<lparr>char := FLOOR\<rparr> else carve w h x a m p)"
    by (rule Cons.IH)
  also have "\<dots> = (if snd p \<in> set (a # ys) \<and> fst p = x \<and> 0 \<le> x \<and> x < w \<and> 0 \<le> snd p \<and> snd p < h
         \<and> char (m p) = WALL
      then (m p)\<lparr>char := FLOOR\<rparr> else m p)"
    by (auto simp: carve_apply prod_eq_iff FLOOR_neq_WALL)
  finally show ?case .
qed

definition dig :: "(int \<times> int) set \<Rightarrow> grid \<Rightarrow> grid" where
  "dig S m = (\<lambda>p. if p \<in> S \<and> char (m p) = WALL then (m p)\<lparr>char := FLOOR\<rparr> else m p)"

definition hseg :: "int \<Rightarrow> int \<Rightarrow> int \<Rightarrow> int \<Rightarrow> int \<Rightarrow> (int \<times> int) set" where
  "hseg w h x1 x2 y =
     {p. min x1 x2 \<le> fst p \<and> fst p \<le> max x1 x2 \<and> snd p = y \<and>
         0 \<le> fst p \<and> fst p < w \<and> 0 \<le> y \<and> y < h}"

definition vseg :: "int \<Rightarrow> int \<Rightarrow> int \<Rightarrow> int \<Rightarrow> int \<Rightarrow> (int \<times> int) set" where
  "vseg w h y1 y2 x =
     {p. min y1 y2 \<le> snd p \<and> snd p \<le> max y1 y2 \<and> fst p = x \<and>
         0 \<le> x \<and> x < w \<and> 0 \<le> snd p \<and> snd p < h}"

lemma hCorridor_dig: "hCorridor w h m x1 x2 y = dig (hseg w h x1 x2 y) m"
  by (rule ext) (simp add: hCorridor_def fold_carve_row dig_def hseg_def)

lemma vCorridor_dig: "vCorridor w h m y1 y2 x = dig (vseg w h y1 y2 x) m"
  by (rule ext) (simp add: vCorridor_def fold_carve_col dig_def vseg_def)

lemma dig_idem: "dig S (dig S m) = dig S m"
  by (rule ext) (simp add: dig_def FLOOR_neq_WALL)

lemma dig_commute: "dig S (dig T m) = dig T (dig S m)"
  by (rule ext) (simp add: dig_def FLOOR_neq_WALL)

lemma dig_cases: "dig S m p = m p \<or> char (m p) = WALL \<and> dig S m p = (m p)\<lparr>char := FLOOR\<rparr>"
  by (simp add: dig_def)

lemma dig_non_wall: "char (m p) \<noteq> WALL \<Longrightarrow> dig S m p = m p"
  by (simp add: dig_def)

text \<open>
  C7. Corridor carving converts wall tiles to floor tiles and changes nothing else: a
  tile that is not a wall is left as it is, and a tile that changes was a wall and
  differs only in its terrain kind, now floor. Hence carving a segment twice gives the
  grid of carving it once, and any two carving calls (horizontal or vertical) commute,
  so the final grid does not depend on the order of the calls.
\<close>

theorem corridor_carving:
  "(char (m p) \<noteq> WALL \<longrightarrow> hCorridor w h m x1 x2 y p = m p \<and> vCorridor w h m y1 y2 x p = m p) \<and>
   (hCorridor w h m x1 x2 y p = m p \<or>
      char (m p) = WALL \<and> hCorridor w h m x1 x2 y p = (m p)\<lparr>char := FLOOR\<rparr>) \<and>
   (vCorridor w h m y1 y2 x p = m p \<or>
      char (m p) = WALL \<and> vCorridor w h m y1 y2 x p = (m p)\<lparr>char := FLOOR\<rparr>) \<and>
   hCorridor w h (hCorridor w h m x1 x2 y) x1 x2 y = hCorridor w h m x1 x2 y \<and>
   vCorridor w h (vCorridor w h m y1 y2 x) y1 y2 x = vCorridor w h m y1 y2 x \<and>
   hCorridor w h (hCorridor w h m a1 a2 b) x1 x2 y = hCorridor w h (hCorridor w h m x1 x2 y) a1 a2 b \<and>
   vCorridor w h (vCorridor w h m b1 b2 a) y1 y2 x = vCorridor w h (vCorridor w h m y1 y2 x) b1 b2 a \<and>
   hCorridor w h (vCorridor w h m y1 y2 x) x1 x2 y = vCorridor w h (hCorridor w h m x1 x2 y) y1 y2 x"
  unfolding hCorridor_dig vCorridor_dig
  by (intro conjI impI dig_cases dig_non_wall dig_idem dig_commute)


theorem corridor_carving_witness:
  "char (Tile STAIRS) \<noteq> WALL \<and>
   hCorridor 5 5 (\<lambda>_. Tile STAIRS) 0 3 1 (1, 1) = Tile STAIRS \<and>
   vCorridor 5 5 (\<lambda>_. Tile STAIRS) 0 3 1 (1, 1) = Tile STAIRS"
proof -
  have nw: "char ((\<lambda>_. Tile STAIRS) (1::int, 1::int)) \<noteq> WALL"
    by (simp add: Tile_def TILE_TYPES)
  from corridor_carving [of "\<lambda>_. Tile STAIRS" "(1, 1)" 5 5 0 3 1 0 3 1, THEN conjunct1] nw
  have "hCorridor 5 5 (\<lambda>_. Tile STAIRS) 0 3 1 (1, 1) = Tile STAIRS \<and>
        vCorridor 5 5 (\<lambda>_. Tile STAIRS) 0 3 1 (1, 1) = Tile STAIRS"
    by blast
  with nw show ?thesis by simp
qed


section \<open>MapGenerator.findStartPosition\<close>

text \<open>
  \<open>findStartPosition(map, stairsPos)\<close> of a generator with \<open>width\<close> and
  \<open>height\<close>. \<open>farthestTile\<close> is the triple \<open>(x, y, distance)\<close>, initially
  \<open>(0, 0, 0)\<close>; \<open>scanCell\<close> is the body of the first pair of loops. The second pair
  of loops returns at the first floor tile met in the scan order, rows first: it is
  \<open>find\<close> over the cells in that order.
\<close>

definition scanCell :: "grid \<Rightarrow> int \<times> int \<Rightarrow> int \<Rightarrow> int \<Rightarrow> int \<times> int \<times> int \<Rightarrow> int \<times> int \<times> int" where
  "scanCell m stairsPos y x farthestTile =
     (if char (m (x, y)) = FLOOR then
        (let distance = \<bar>x - fst stairsPos\<bar> + \<bar>y - snd stairsPos\<bar>
         in if distance > snd (snd farthestTile) then (x, y, distance) else farthestTile)
      else farthestTile)"

definition cells :: "int \<Rightarrow> int \<Rightarrow> (int \<times> int) list" where
  "cells width height = concat (map (\<lambda>y. map (\<lambda>x. (x, y)) [0..width - 1]) [0..height - 1])"

definition findStartPosition :: "int \<Rightarrow> int \<Rightarrow> grid \<Rightarrow> int \<times> int \<Rightarrow> int \<times> int" where
  "findStartPosition width height m stairsPos =
     (let farthestTile =
            fold (\<lambda>y ft. fold (\<lambda>x ft. scanCell m stairsPos y x ft) [0..width - 1] ft)
              [0..height - 1] (0, 0, 0)
      in if snd (snd farthestTile) > 0 then (fst farthestTile, fst (snd farthestTile))
         else (case find (\<lambda>(x, y). char (m (x, y)) = FLOOR) (cells width height) of
                 Some p \<Rightarrow> p
               | None \<Rightarrow> (1, 1)))"


section \<open>The start position is a farthest floor tile\<close>

lemma set_cells: "set (cells w h) = {p. 0 \<le> fst p \<and> fst p < w \<and> 0 \<le> snd p \<and> snd p < h}"
  by (auto simp: cells_def)

lemma fold_rows_cells:
  "fold (\<lambda>y ft. fold (\<lambda>x ft. f y x ft) xs ft) ys ft0 =
   fold (\<lambda>p ft. f (snd p) (fst p) ft) (concat (map (\<lambda>y. map (\<lambda>x. (x, y)) xs) ys)) ft0"
proof (induction ys arbitrary: ft0)
  case Nil
  show ?case by simp
next
  case (Cons y ys)
  have "fold (\<lambda>x ft. f y x ft) xs ft0 = fold (\<lambda>p ft. f (snd p) (fst p) ft) (map (\<lambda>x. (x, y)) xs) ft0"
    by (simp add: fold_map comp_def)
  then show ?case by (simp add: Cons.IH)
qed

definition manhattan :: "int \<times> int \<Rightarrow> int \<times> int \<Rightarrow> int" where
  "manhattan s p = \<bar>fst p - fst s\<bar> + \<bar>snd p - snd s\<bar>"

lemma scan_inv:
  assumes "fold (\<lambda>p ft. scanCell m s (snd p) (fst p) ft) cs (fx0, fy0, d0) = (fx, fy, d)"
  shows "d0 \<le> d \<and> (\<forall>c \<in> set cs. char (m c) = FLOOR \<longrightarrow> manhattan s c \<le> d) \<and>
         (d0 < d \<longrightarrow> (fx, fy) \<in> set cs \<and> char (m (fx, fy)) = FLOOR \<and> manhattan s (fx, fy) = d) \<and>
         (d = d0 \<longrightarrow> (fx, fy) = (fx0, fy0))"
  using assms
proof (induction cs arbitrary: fx0 fy0 d0)
  case Nil
  then show ?case by simp
next
  case (Cons c cs)
  obtain a b e where st: "scanCell m s (snd c) (fst c) (fx0, fy0, d0) = (a, b, e)"
    by (metis prod_cases3)
  have step: "d0 \<le> e \<and> (char (m c) = FLOOR \<longrightarrow> manhattan s c \<le> e) \<and>
              (d0 < e \<longrightarrow> (a, b) = c \<and> char (m c) = FLOOR \<and> manhattan s c = e) \<and>
              (e = d0 \<longrightarrow> (a, b) = (fx0, fy0))"
    using st by (cases c) (auto simp: scanCell_def manhattan_def Let_def split: if_splits)
  from Cons.prems st have "fold (\<lambda>p ft. scanCell m s (snd p) (fst p) ft) cs (a, b, e) = (fx, fy, d)"
    by simp
  from Cons.IH [OF this] step show ?case by auto
qed


definition inGrid :: "int \<Rightarrow> int \<Rightarrow> int \<times> int \<Rightarrow> bool" where
  "inGrid w h p = (0 \<le> fst p \<and> fst p < w \<and> 0 \<le> snd p \<and> snd p < h)"

definition rowMajorBefore :: "int \<times> int \<Rightarrow> int \<times> int \<Rightarrow> bool" where
  "rowMajorBefore p q = (snd p < snd q \<or> snd p = snd q \<and> fst p < fst q)"

lemma sorted_wrt_cells_gen:
  "sorted_wrt (<) xs \<Longrightarrow> sorted_wrt (<) ys \<Longrightarrow>
   sorted_wrt rowMajorBefore (concat (map (\<lambda>y. map (\<lambda>x. (x, y)) xs) ys))"
proof (induction ys)
  case Nil
  show ?case by simp
next
  case (Cons y ys)
  have row: "sorted_wrt rowMajorBefore (map (\<lambda>x. (x, y)) xs)"
    using Cons.prems(1) by (simp add: sorted_wrt_map rowMajorBefore_def)
  have rest: "sorted_wrt rowMajorBefore (concat (map (\<lambda>y. map (\<lambda>x. (x, y)) xs) ys))"
    using Cons by simp
  have cross: "\<forall>p \<in> set (map (\<lambda>x. (x, y)) xs).
                 \<forall>q \<in> set (concat (map (\<lambda>y. map (\<lambda>x. (x, y)) xs) ys)). rowMajorBefore p q"
    using Cons.prems(2) by (auto simp: rowMajorBefore_def)
  show ?case using row rest cross by (simp add: sorted_wrt_append)
qed

lemma sorted_wrt_cells: "sorted_wrt rowMajorBefore (cells w h)"
  unfolding cells_def
  by (rule sorted_wrt_cells_gen) (simp_all add: strict_sorted_iff)

lemma find_first_sorted:
  assumes "sorted_wrt R xs" "find P xs = Some p" "q \<in> set xs" "R q p"
    and irr: "\<And>a. \<not> R a a" and asym: "\<And>a b. R a b \<Longrightarrow> \<not> R b a"
  shows "\<not> P q"
proof -
  from assms(2) obtain i where i: "i < length xs" "xs ! i = p" "\<forall>j<i. \<not> P (xs ! j)"
    by (auto simp: find_Some_iff)
  from assms(3) obtain k where k: "k < length xs" "xs ! k = q"
    by (auto simp: in_set_conv_nth)
  have "k < i"
  proof (rule ccontr)
    assume "\<not> k < i"
    then consider "k = i" | "i < k" by linarith
    then show False
    proof cases
      case 1
      with i k assms(4) irr show False by auto
    next
      case 2
      with assms(1) i k have "R p q" by (auto simp: sorted_wrt_iff_nth_less)
      with assms(4) asym show False by blast
    qed
  qed
  with i k show ?thesis by auto
qed

lemma scan_result:
  obtains fx fy d where
    "fold (\<lambda>y ft. fold (\<lambda>x ft. scanCell m s y x ft) [0..w - 1] ft) [0..h - 1] (0, 0, 0) = (fx, fy, d)"
    "0 \<le> d" "\<forall>c. inGrid w h c \<and> char (m c) = FLOOR \<longrightarrow> manhattan s c \<le> d"
    "0 < d \<longrightarrow> inGrid w h (fx, fy) \<and> char (m (fx, fy)) = FLOOR \<and> manhattan s (fx, fy) = d"
proof -
  obtain fx fy d where r:
    "fold (\<lambda>p ft. scanCell m s (snd p) (fst p) ft) (cells w h) (0, 0, 0) = (fx, fy, d)"
    by (metis prod_cases3)
  have e: "fold (\<lambda>y ft. fold (\<lambda>x ft. scanCell m s y x ft) [0..w - 1] ft) [0..h - 1] (0, 0, 0) = (fx, fy, d)"
    using r by (simp add: fold_rows_cells cells_def)
  from scan_inv [OF r] have
    "0 \<le> d" "\<forall>c. inGrid w h c \<and> char (m c) = FLOOR \<longrightarrow> manhattan s c \<le> d"
    "0 < d \<longrightarrow> inGrid w h (fx, fy) \<and> char (m (fx, fy)) = FLOOR \<and> manhattan s (fx, fy) = d"
    by (simp_all add: set_cells inGrid_def)
  with e show thesis by (rule that)
qed


lemma find_floor_cells:
  "find (\<lambda>(x, y). char (m (x, y)) = FLOOR) (cells w h) = None \<longleftrightarrow>
     \<not> (\<exists>c. inGrid w h c \<and> char (m c) = FLOOR)"
  by (auto simp: find_None_iff set_cells inGrid_def)

lemma find_floor_cells_Some:
  assumes "find (\<lambda>(x, y). char (m (x, y)) = FLOOR) (cells w h) = Some p"
  shows "inGrid w h p \<and> char (m p) = FLOOR \<and>
         (\<forall>c. inGrid w h c \<and> rowMajorBefore c p \<longrightarrow> char (m c) \<noteq> FLOOR)"
proof -
  from assms have "p \<in> set (cells w h)" "char (m p) = FLOOR"
    by (auto simp: find_Some_iff)
  moreover have "char (m c) \<noteq> FLOOR" if "inGrid w h c" "rowMajorBefore c p" for c
  proof -
    from that(1) have cin: "c \<in> set (cells w h)" by (simp add: set_cells inGrid_def)
    have "\<not> (case c of (x, y) \<Rightarrow> char (m (x, y)) = FLOOR)"
      by (rule find_first_sorted [OF sorted_wrt_cells assms cin that(2)])
         (auto simp: rowMajorBefore_def)
    then show ?thesis by (simp add: case_prod_beta)
  qed
  ultimately show ?thesis by (auto simp: set_cells inGrid_def)
qed

text \<open>
  C10. With \<open>s\<close> the stairs position: if some floor tile of the grid is at positive
  Manhattan distance from \<open>s\<close>, the start position is a floor tile of the grid whose
  distance to \<open>s\<close> is maximal among all floor tiles of the grid. If no floor tile is
  at positive distance but the grid has a floor tile, the start position is the first
  floor tile in row-major order. If the grid has no floor tile, it is \<open>(1, 1)\<close>.
\<close>

theorem findStartPosition_farthest_floor:
  "((\<exists>c. inGrid w h c \<and> char (m c) = FLOOR \<and> 0 < manhattan s c) \<longrightarrow>
      inGrid w h (findStartPosition w h m s) \<and> char (m (findStartPosition w h m s)) = FLOOR \<and>
      (\<forall>c. inGrid w h c \<and> char (m c) = FLOOR \<longrightarrow>
           manhattan s c \<le> manhattan s (findStartPosition w h m s))) \<and>
   (\<not> (\<exists>c. inGrid w h c \<and> char (m c) = FLOOR \<and> 0 < manhattan s c) \<and>
    (\<exists>c. inGrid w h c \<and> char (m c) = FLOOR) \<longrightarrow>
      inGrid w h (findStartPosition w h m s) \<and> char (m (findStartPosition w h m s)) = FLOOR \<and>
      (\<forall>c. inGrid w h c \<and> rowMajorBefore c (findStartPosition w h m s) \<longrightarrow>
           char (m c) \<noteq> FLOOR)) \<and>
   (\<not> (\<exists>c. inGrid w h c \<and> char (m c) = FLOOR) \<longrightarrow> findStartPosition w h m s = (1, 1))"
proof -
  obtain fx fy d where r:
    "fold (\<lambda>y ft. fold (\<lambda>x ft. scanCell m s y x ft) [0..w - 1] ft) [0..h - 1] (0, 0, 0) = (fx, fy, d)"
    and d0: "0 \<le> d"
    and ub: "\<forall>c. inGrid w h c \<and> char (m c) = FLOOR \<longrightarrow> manhattan s c \<le> d"
    and at: "0 < d \<longrightarrow> inGrid w h (fx, fy) \<and> char (m (fx, fy)) = FLOOR \<and> manhattan s (fx, fy) = d"
    by (rule scan_result)
  have far: "findStartPosition w h m s = (fx, fy)" if "0 < d"
    using that r by (simp add: findStartPosition_def)
  have fall: "findStartPosition w h m s =
      (case find (\<lambda>(x, y). char (m (x, y)) = FLOOR) (cells w h) of Some p \<Rightarrow> p | None \<Rightarrow> (1, 1))"
    if "\<not> 0 < d"
    using that r by (simp add: findStartPosition_def)
  have 1: "inGrid w h (findStartPosition w h m s) \<and> char (m (findStartPosition w h m s)) = FLOOR \<and>
      (\<forall>c. inGrid w h c \<and> char (m c) = FLOOR \<longrightarrow>
           manhattan s c \<le> manhattan s (findStartPosition w h m s))"
    if "\<exists>c. inGrid w h c \<and> char (m c) = FLOOR \<and> 0 < manhattan s c"
  proof -
    from that ub have "0 < d" by force
    with far at ub show ?thesis by simp
  qed
  have dz: "\<not> 0 < d" if "\<not> (\<exists>c. inGrid w h c \<and> char (m c) = FLOOR \<and> 0 < manhattan s c)"
    using that at by blast
  have 2: "inGrid w h (findStartPosition w h m s) \<and> char (m (findStartPosition w h m s)) = FLOOR \<and>
      (\<forall>c. inGrid w h c \<and> rowMajorBefore c (findStartPosition w h m s) \<longrightarrow>
           char (m c) \<noteq> FLOOR)"
    if a: "\<not> (\<exists>c. inGrid w h c \<and> char (m c) = FLOOR \<and> 0 < manhattan s c)"
      and b: "\<exists>c. inGrid w h c \<and> char (m c) = FLOOR"
  proof -
    from b obtain p where p: "find (\<lambda>(x, y). char (m (x, y)) = FLOOR) (cells w h) = Some p"
      using find_floor_cells [of m w h] by (cases "find (\<lambda>(x, y). char (m (x, y)) = FLOOR) (cells w h)") auto
    with fall [OF dz [OF a]] have "findStartPosition w h m s = p" by simp
    with find_floor_cells_Some [OF p] show ?thesis by simp
  qed
  have 3: "findStartPosition w h m s = (1, 1)" if c: "\<not> (\<exists>c. inGrid w h c \<and> char (m c) = FLOOR)"
  proof -
    from c have "\<not> 0 < d" using at by blast
    moreover from c have "find (\<lambda>(x, y). char (m (x, y)) = FLOOR) (cells w h) = None"
      by (simp add: find_floor_cells)
    ultimately show ?thesis using fall by simp
  qed
  from 1 2 3 show ?thesis by blast
qed

theorem findStartPosition_farthest_floor_witness:
  "inGrid 3 2 (findStartPosition 3 2 ((\<lambda>_. Tile WALL)((1, 0) := Tile FLOOR, (2, 1) := Tile FLOOR)) (1, 0)) \<and>
   char (((\<lambda>_. Tile WALL)((1, 0) := Tile FLOOR, (2, 1) := Tile FLOOR))
      (findStartPosition 3 2 ((\<lambda>_. Tile WALL)((1, 0) := Tile FLOOR, (2, 1) := Tile FLOOR)) (1, 0))) = FLOOR \<and>
   findStartPosition 3 2 ((\<lambda>_. Tile WALL)((1, 0) := Tile FLOOR, (2, 1) := Tile FLOOR)) (1, 0) = (2, 1) \<and>
   findStartPosition 3 2 (\<lambda>_. Tile WALL) (1, 0) = (1, 1)"
proof -
  let ?g = "(\<lambda>_. Tile WALL)((1::int, 0::int) := Tile FLOOR, (2, 1) := Tile FLOOR)"
  have "inGrid 3 2 (2, 1) \<and> char (?g (2, 1)) = FLOOR \<and> 0 < manhattan (1, 0) (2, 1)"
    by (simp add: inGrid_def manhattan_def Tile_def TILE_TYPES)
  then have h: "\<exists>c. inGrid 3 2 c \<and> char (?g c) = FLOOR \<and> 0 < manhattan (1, 0) c"
    by (rule exI)
  from findStartPosition_farthest_floor [of 3 2 ?g "(1, 0)", THEN conjunct1] h
  have a: "inGrid 3 2 (findStartPosition 3 2 ?g (1, 0)) \<and>
           char (?g (findStartPosition 3 2 ?g (1, 0))) = FLOOR"
    by blast
  have e: "findStartPosition 3 2 ?g (1, 0) = (2, 1)"
    by (simp add: findStartPosition_def scanCell_def Tile_def TILE_TYPES cells_def upto.simps)
  have n: "\<not> (\<exists>c. inGrid 3 2 c \<and> char ((\<lambda>_. Tile WALL) c) = FLOOR)"
    by (simp add: Tile_def TILE_TYPES)
  from findStartPosition_farthest_floor [of 3 2 "\<lambda>_. Tile WALL" "(1, 0)", THEN conjunct2, THEN conjunct2] n
  have b: "findStartPosition 3 2 (\<lambda>_. Tile WALL) (1, 0) = (1, 1)"
    by blast
  from a e b show ?thesis by blast
qed


section \<open>RoomGenerator\<close>

text \<open>
  A room is the object that \<open>generateRoom\<close> returns. The generator object carries
  \<open>width\<close>, \<open>height\<close> and the three room parameters, which
  \<open>adjustRoomParams\<close> overwrites; \<open>generateRooms\<close> therefore returns the
  generator as well, with the map, the room list and the rest of the random stream.
  The parameter \<open>floor\<close> of the source is \<open>floorN\<close> here.

  The sizes and positions of \<open>generateRoom\<close> are floors of exact products of a draw.
  The separation of committed rooms proved below rests on the wall test of
  \<open>canPlaceRoom\<close> and on sizes of at least 1, not on which integer a product is
  floored to.
\<close>

record room =
  room_x :: int
  room_y :: int
  room_width :: int
  room_height :: int
  isSpecial :: bool
  center :: "int \<times> int"

record roomGenerator =
  rg_width :: int
  rg_height :: int
  minRoomSize :: int
  maxRoomSize :: int
  maxRooms :: int

definition RoomGenerator :: "int \<Rightarrow> int \<Rightarrow> roomGenerator" where
  "RoomGenerator width height =
     \<lparr>rg_width = width, rg_height = height, minRoomSize = 3, maxRoomSize = 8, maxRooms = 15\<rparr>"

definition calculateRoomAttempts :: "int \<Rightarrow> int" where
  "calculateRoomAttempts floorN = 20 + min (floorN * 2) 30"

definition adjustRoomParams :: "roomGenerator \<Rightarrow> int \<Rightarrow> roomGenerator" where
  "adjustRoomParams g floorN =
     (if floorN > 5 then g\<lparr>maxRoomSize := 9, maxRooms := 18\<rparr>
      else if floorN > 10 then g\<lparr>maxRoomSize := 10, maxRooms := 20\<rparr>
      else g)"

definition generateRoom :: "roomGenerator \<Rightarrow> int \<Rightarrow> rng \<Rightarrow> room \<times> rng" where
  "generateRoom g floorN r0 =
     (let (d1, r1) = random r0;
          width = \<lfloor>d1 * of_int (maxRoomSize g - minRoomSize g + 1)\<rfloor> + minRoomSize g;
          (d2, r2) = random r1;
          height = \<lfloor>d2 * of_int (maxRoomSize g - minRoomSize g + 1)\<rfloor> + minRoomSize g;
          (d3, r3) = random r2;
          x = \<lfloor>d3 * of_int (rg_width g - width - 2)\<rfloor> + 1;
          (d4, r4) = random r3;
          y = \<lfloor>d4 * of_int (rg_height g - height - 2)\<rfloor> + 1;
          (d5, r5) = random r4;
          isSpecial = (d5 < 0.05 + of_int floorN * 0.01)
      in (\<lparr>room_x = x, room_y = y, room_width = width, room_height = height,
           isSpecial = isSpecial,
           center = (\<lfloor>of_int x + of_int width / (2::real)\<rfloor>,
                     \<lfloor>of_int y + of_int height / (2::real)\<rfloor>)\<rparr>, r5))"

definition canPlaceRoom :: "roomGenerator \<Rightarrow> grid \<Rightarrow> room \<Rightarrow> bool" where
  "canPlaceRoom g m room =
     (if room_x room < 1 \<or> room_y room < 1 \<or>
         room_x room + room_width room \<ge> rg_width g - 1 \<or>
         room_y room + room_height room \<ge> rg_height g - 1
      then False
      else list_all (\<lambda>y. list_all (\<lambda>x. char (m (x, y)) = WALL)
                             [room_x room - 1..room_x room + room_width room])
             [room_y room - 1..room_y room + room_height room])"

definition getSpecialFloorType :: "rng \<Rightarrow> string \<times> rng" where
  "getSpecialFloorType r0 =
     (let types = [''water'', ''dirt'', ''default''];
          (d, r1) = random r0;
          i = \<lfloor>d * of_int (int (length types))\<rfloor>
      in (if 0 \<le> i \<and> i < int (length types) then types ! nat i else ''undefined'', r1))"

definition carveCell :: "room \<Rightarrow> int \<Rightarrow> int \<Rightarrow> grid \<times> rng \<Rightarrow> grid \<times> rng" where
  "carveCell room y x s =
     (let (m, r0) = s;
          m1 = m((x, y) := (m (x, y))\<lparr>char := FLOOR\<rparr>)
      in if isSpecial room then
           (let (t, r1) = getSpecialFloorType r0
            in (m1((x, y) := (m1 (x, y))\<lparr>floorType := t\<rparr>), r1))
         else (m1, r0))"

definition carveRoom :: "grid \<Rightarrow> room \<Rightarrow> rng \<Rightarrow> grid \<times> rng" where
  "carveRoom m room r0 =
     fold (\<lambda>y s. fold (\<lambda>x s. carveCell room y x s)
                     [room_x room..room_x room + room_width room - 1] s)
       [room_y room..room_y room + room_height room - 1] (m, r0)"

function genLoop ::
  "roomGenerator \<Rightarrow> int \<Rightarrow> int \<Rightarrow> int \<Rightarrow> grid \<times> room list \<times> rng \<Rightarrow> grid \<times> room list \<times> rng"
where
  "genLoop g floorN attempts i (m, rooms, r0) =
     (if i < attempts then
        (if int (length rooms) \<ge> maxRooms g then (m, rooms, r0)
         else
           (let (room, r1) = generateRoom g floorN r0
            in if canPlaceRoom g m room then
                 (let (m1, r2) = carveRoom m room r1
                  in genLoop g floorN attempts (i + 1) (m1, rooms @ [room], r2))
               else genLoop g floorN attempts (i + 1) (m, rooms, r1)))
      else (m, rooms, r0))"
  by pat_completeness auto
termination
  by (relation "measure (\<lambda>(g, floorN, attempts, i, s). nat (attempts - i))") auto

declare genLoop.simps [simp del]

definition generateRooms ::
  "roomGenerator \<Rightarrow> grid \<Rightarrow> int \<Rightarrow> rng \<Rightarrow> room list \<times> grid \<times> roomGenerator \<times> rng" where
  "generateRooms g m floorN r0 =
     (let attempts = calculateRoomAttempts floorN;
          g1 = adjustRoomParams g floorN;
          (m1, rooms, r1) = genLoop g1 floorN attempts 0 (m, [], r0)
      in (rooms, m1, g1, r1))"



section \<open>Committed rooms keep a one-tile margin\<close>

text \<open>
  \<open>rect r\<close> is the set of cells of a room, \<open>marginRect r\<close> the same rectangle grown
  by one tile on each side. Two rooms are \<open>separated\<close> when on some axis at least one
  full tile lies between them. \<open>unitDraws\<close> says that every draw lies in \<open>[0, 1)\<close>,
  as \<open>Math.random()\<close> guarantees.
\<close>

definition rect :: "room \<Rightarrow> (int \<times> int) set" where
  "rect r = {p. room_x r \<le> fst p \<and> fst p < room_x r + room_width r \<and>
                room_y r \<le> snd p \<and> snd p < room_y r + room_height r}"

definition marginRect :: "room \<Rightarrow> (int \<times> int) set" where
  "marginRect r = {p. room_x r - 1 \<le> fst p \<and> fst p \<le> room_x r + room_width r \<and>
                      room_y r - 1 \<le> snd p \<and> snd p \<le> room_y r + room_height r}"

definition separated :: "room \<Rightarrow> room \<Rightarrow> bool" where
  "separated a b =
     (room_x a + room_width a < room_x b \<or> room_x b + room_width b < room_x a \<or>
      room_y a + room_height a < room_y b \<or> room_y b + room_height b < room_y a)"

definition unitDraws :: "rng \<Rightarrow> bool" where
  "unitDraws r = (\<forall>n. 0 \<le> r n \<and> r n < 1)"

lemma canPlaceRoom_iff:
  "canPlaceRoom g m r \<longleftrightarrow>
     1 \<le> room_x r \<and> 1 \<le> room_y r \<and>
     room_x r + room_width r < rg_width g - 1 \<and> room_y r + room_height r < rg_height g - 1 \<and>
     (\<forall>p \<in> marginRect r. char (m p) = WALL)"
  by (auto simp: canPlaceRoom_def marginRect_def list_all_iff)

lemma carveCell_char:
  "char (fst (carveCell r y x (m, r0)) p) = (if p = (x, y) then FLOOR else char (m p))"
  by (simp add: carveCell_def Let_def split: prod.split)

lemma carve_row_char:
  "char (fst (fold (\<lambda>x s. carveCell r y x s) xs (m, r0)) p) =
     (if fst p \<in> set xs \<and> snd p = y then FLOOR else char (m p))"
proof (induction xs arbitrary: m r0)
  case Nil
  show ?case by simp
next
  case (Cons x xs)
  obtain m1 r1 where c: "carveCell r y x (m, r0) = (m1, r1)" by (cases "carveCell r y x (m, r0)")
  have "char (m1 p) = (if p = (x, y) then FLOOR else char (m p))"
    using carveCell_char [of r y x m r0 p] c by simp
  then show ?case using c Cons.IH [of m1 r1] by (auto simp: prod_eq_iff)
qed

lemma carve_rows_char:
  "char (fst (fold (\<lambda>y s. fold (\<lambda>x s. carveCell r y x s) xs s) ys (m, r0)) p) =
     (if fst p \<in> set xs \<and> snd p \<in> set ys then FLOOR else char (m p))"
proof (induction ys arbitrary: m r0)
  case Nil
  show ?case by simp
next
  case (Cons y ys)
  obtain m1 r1 where c: "fold (\<lambda>x s. carveCell r y x s) xs (m, r0) = (m1, r1)"
    by (cases "fold (\<lambda>x s. carveCell r y x s) xs (m, r0)")
  have "char (m1 p) = (if fst p \<in> set xs \<and> snd p = y then FLOOR else char (m p))"
    using carve_row_char [of r y xs m r0 p] c by simp
  then show ?case using c Cons.IH [of m1 r1] by auto
qed

lemma carveRoom_char:
  "char (fst (carveRoom m r r0) p) = (if p \<in> rect r then FLOOR else char (m p))"
  by (auto simp: carveRoom_def carve_rows_char rect_def)


lemma unitDraws_random:
  "unitDraws r \<Longrightarrow> random r = (d, r1) \<Longrightarrow> unitDraws r1 \<and> 0 \<le> d \<and> d < 1"
  by (auto simp: unitDraws_def random_def)

lemma carveCell_draws: "unitDraws (snd s) \<Longrightarrow> unitDraws (snd (carveCell r y x s))"
  by (auto simp: carveCell_def getSpecialFloorType_def Let_def split: prod.splits
           dest: unitDraws_random)

lemma carveRoom_draws:
  assumes "unitDraws r0"
  shows "unitDraws (snd (carveRoom m r r0))"
proof -
  have row: "unitDraws (snd (fold (\<lambda>x s. carveCell r y x s) xs s))" if "unitDraws (snd s)"
    for y xs and s :: "grid \<times> rng"
    using that by (induction xs arbitrary: s) (simp_all add: carveCell_draws)
  have rows: "unitDraws (snd (fold (\<lambda>y s. fold (\<lambda>x s. carveCell r y x s) xs s) ys s))"
    if "unitDraws (snd s)" for xs ys and s :: "grid \<times> rng"
    using that by (induction ys arbitrary: s) (simp_all add: row)
  show ?thesis unfolding carveRoom_def by (rule rows) (simp add: assms)
qed

lemma generateRoom_props:
  assumes "unitDraws r0" "minRoomSize g \<le> maxRoomSize g" "generateRoom g fl r0 = (room, r5)"
  shows "unitDraws r5 \<and> minRoomSize g \<le> room_width room \<and> minRoomSize g \<le> room_height room"
proof -
  obtain d1 r1 where 1: "random r0 = (d1, r1)" by (cases "random r0")
  obtain d2 r2 where 2: "random r1 = (d2, r2)" by (cases "random r1")
  obtain d3 r3 where 3: "random r2 = (d3, r3)" by (cases "random r2")
  obtain d4 r4 where 4: "random r3 = (d4, r4)" by (cases "random r3")
  obtain d5 r5' where 5: "random r4 = (d5, r5')" by (cases "random r4")
  from unitDraws_random [OF assms(1) 1] have u1: "unitDraws r1" "0 \<le> d1" by simp_all
  from unitDraws_random [OF u1(1) 2] have u2: "unitDraws r2" "0 \<le> d2" by simp_all
  from unitDraws_random [OF u2(1) 3] have u3: "unitDraws r3" by simp
  from unitDraws_random [OF u3 4] have u4: "unitDraws r4" by simp
  from unitDraws_random [OF u4 5] have u5: "unitDraws r5'" by simp
  have n: "(0::real) \<le> of_int (maxRoomSize g - minRoomSize g + 1)" using assms(2) by simp
  have f1: "0 \<le> \<lfloor>d1 * of_int (maxRoomSize g - minRoomSize g + 1)\<rfloor>"
    using u1(2) n by (simp add: mult_nonneg_nonneg del: of_int_add of_int_diff)
  have f2: "0 \<le> \<lfloor>d2 * of_int (maxRoomSize g - minRoomSize g + 1)\<rfloor>"
    using u2(2) n by (simp add: mult_nonneg_nonneg del: of_int_add of_int_diff)
  from assms(3) have "r5 = r5'"
    "room_width room = \<lfloor>d1 * of_int (maxRoomSize g - minRoomSize g + 1)\<rfloor> + minRoomSize g"
    "room_height room = \<lfloor>d2 * of_int (maxRoomSize g - minRoomSize g + 1)\<rfloor> + minRoomSize g"
    by (auto simp: generateRoom_def 1 2 3 4 5 Let_def)
  with u5 f1 f2 show ?thesis by simp
qed

definition roomsInv :: "grid \<Rightarrow> room list \<Rightarrow> bool" where
  "roomsInv m rooms =
     ((\<forall>r \<in> set rooms. 1 \<le> room_width r \<and> 1 \<le> room_height r \<and>
          (\<forall>p \<in> rect r. char (m p) \<noteq> WALL)) \<and>
      sorted_wrt separated rooms)"

lemma placed_room_separated:
  assumes "\<forall>p \<in> marginRect r. char (m p) = WALL" "\<forall>p \<in> rect a. char (m p) \<noteq> WALL"
    "1 \<le> room_width a" "1 \<le> room_height a" "1 \<le> room_width r" "1 \<le> room_height r"
  shows "separated a r"
proof (rule ccontr)
  assume n: "\<not> separated a r"
  let ?p = "(max (room_x a) (room_x r - 1), max (room_y a) (room_y r - 1))"
  from n assms(3-6) have "?p \<in> rect a" "?p \<in> marginRect r"
    by (auto simp: separated_def rect_def marginRect_def)
  with assms(1,2) show False by blast
qed

lemma roomsInv_step:
  assumes inv: "roomsInv m rooms" and can: "canPlaceRoom g m r"
    and dims: "1 \<le> room_width r" "1 \<le> room_height r"
  shows "roomsInv (fst (carveRoom m r r1)) (rooms @ [r])"
proof -
  from can have wall: "\<forall>p \<in> marginRect r. char (m p) = WALL" by (simp add: canPlaceRoom_iff)
  have sep: "\<forall>a \<in> set rooms. separated a r"
    using inv wall dims by (auto simp: roomsInv_def intro: placed_room_separated)
  have keep: "\<forall>a \<in> set (rooms @ [r]). \<forall>p \<in> rect a. char (fst (carveRoom m r r1) p) \<noteq> WALL"
    using inv by (auto simp: roomsInv_def carveRoom_char FLOOR_neq_WALL)
  from inv sep keep dims show ?thesis
    by (simp add: roomsInv_def sorted_wrt_append)
qed

lemma genLoop_inv:
  assumes "roomsInv m rooms" "unitDraws r0" "1 \<le> minRoomSize g" "minRoomSize g \<le> maxRoomSize g"
    "genLoop g fl attempts i (m, rooms, r0) = (m', rooms', r')"
  shows "roomsInv m' rooms'"
  using assms
proof (induction g fl attempts i "(m, rooms, r0)" arbitrary: m rooms r0 rule: genLoop.induct)
  case (1 g fl attempts i m rooms r0)
  show ?case
  proof (cases "i < attempts \<and> \<not> int (length rooms) \<ge> maxRooms g")
    case False
    with "1.prems" show ?thesis by (auto simp: genLoop.simps [of g fl attempts i] split: if_splits)
  next
    case True
    obtain room r1 where gr: "generateRoom g fl r0 = (room, r1)" by (cases "generateRoom g fl r0")
    from generateRoom_props [OF "1.prems"(2) "1.prems"(4) gr] "1.prems"(3)
    have u1: "unitDraws r1" and dims: "1 \<le> room_width room" "1 \<le> room_height room" by auto
    show ?thesis
    proof (cases "canPlaceRoom g m room")
      case can: True
      obtain m1 r2 where cr: "carveRoom m room r1 = (m1, r2)" by (cases "carveRoom m room r1")
      from carveRoom_draws [OF u1, of m room] cr have u2: "unitDraws r2" by simp
      from roomsInv_step [OF "1.prems"(1) can dims, of r1] cr
      have inv1: "roomsInv m1 (rooms @ [room])" by simp
      from "1.prems"(5) True gr can cr
      have "genLoop g fl attempts (i + 1) (m1, rooms @ [room], r2) = (m', rooms', r')"
        by (simp add: genLoop.simps [of g fl attempts i])
      from "1.hyps"(1) [OF _ _ gr [symmetric] refl can cr [symmetric] refl inv1 u2 "1.prems"(3,4) this] True
      show ?thesis by simp
    next
      case cannot: False
      from "1.prems"(5) True gr cannot
      have "genLoop g fl attempts (i + 1) (m, rooms, r1) = (m', rooms', r')"
        by (simp add: genLoop.simps [of g fl attempts i])
      from "1.hyps"(2) [OF _ _ gr [symmetric] refl cannot "1.prems"(1) u1 "1.prems"(3,4) this] True
      show ?thesis by simp
    qed
  qed
qed


text \<open>
  C2. A room proposal is accepted only if every cell of its rectangle and of the one-tile
  margin around it is a wall. For draws in \<open>[0, 1)\<close> and a generator whose minimum room
  size is the constructor's 3, any two rooms of the list that \<open>generateRooms\<close> returns
  are separated by at least one tile, whatever the map was before.
\<close>

theorem committed_rooms_are_separated:
  "(canPlaceRoom g m room \<longrightarrow> (\<forall>p \<in> marginRect room. char (m p) = WALL)) \<and>
   (unitDraws r0 \<and> minRoomSize g = 3 \<and> 3 \<le> maxRoomSize g \<longrightarrow>
      (\<forall>i j. i < length (fst (generateRooms g m fl r0)) \<and>
             j < length (fst (generateRooms g m fl r0)) \<and> i \<noteq> j \<longrightarrow>
         separated (fst (generateRooms g m fl r0) ! i) (fst (generateRooms g m fl r0) ! j)))"
proof -
  have 1: "canPlaceRoom g m room \<longrightarrow> (\<forall>p \<in> marginRect room. char (m p) = WALL)"
    by (simp add: canPlaceRoom_iff)
  have 2: "separated (fst (generateRooms g m fl r0) ! i) (fst (generateRooms g m fl r0) ! j)"
    if u: "unitDraws r0" and g: "minRoomSize g = 3" "3 \<le> maxRoomSize g"
      and ij: "i < length (fst (generateRooms g m fl r0))" "j < length (fst (generateRooms g m fl r0))" "i \<noteq> j"
    for i j
  proof -
    let ?g1 = "adjustRoomParams g fl"
    obtain m1 rooms r1 where l: "genLoop ?g1 fl (calculateRoomAttempts fl) 0 (m, [], r0) = (m1, rooms, r1)"
      by (metis prod_cases3)
    have rs: "fst (generateRooms g m fl r0) = rooms"
      by (simp add: generateRooms_def Let_def l)
    have min: "1 \<le> minRoomSize ?g1" "minRoomSize ?g1 \<le> maxRoomSize ?g1"
      using g by (simp_all add: adjustRoomParams_def)
    have "roomsInv m []" by (simp add: roomsInv_def)
    from genLoop_inv [OF this u min l] have "roomsInv m1 rooms" .
    then have sw: "sorted_wrt separated rooms" by (simp add: roomsInv_def)
    have sym: "separated a b \<Longrightarrow> separated b a" for a b by (auto simp: separated_def)
    from ij rs have "i < j \<or> j < i" "i < length rooms" "j < length rooms" by auto
    with sw sym show ?thesis unfolding rs by (auto simp: sorted_wrt_iff_nth_less)
  qed
  from 1 2 show ?thesis by blast
qed

definition wdraws :: rng where
  "wdraws n = (if n = 7 then 4 / 5 else if n = 4 \<or> n = 9 then 1 / 2 else 0)"

lemma generateRooms_example:
  "fst (generateRooms (RoomGenerator 12 6) (\<lambda>_. Tile WALL) 1 wdraws) =
   [\<lparr>room_x = 1, room_y = 1, room_width = 3, room_height = 3, isSpecial = False, center = (2, 2)\<rparr>,
    \<lparr>room_x = 6, room_y = 1, room_width = 3, room_height = 3, isSpecial = False, center = (7, 2)\<rparr>]"
  by (simp add: generateRooms_def calculateRoomAttempts_def adjustRoomParams_def RoomGenerator_def
        genLoop.simps generateRoom_def random_def wdraws_def canPlaceRoom_def carveRoom_def
        carveCell_def Tile_def TILE_TYPES Let_def upto.simps)

theorem committed_rooms_are_separated_witness:
  "unitDraws wdraws \<and> minRoomSize (RoomGenerator 12 6) = 3 \<and> 3 \<le> maxRoomSize (RoomGenerator 12 6) \<and>
   length (fst (generateRooms (RoomGenerator 12 6) (\<lambda>_. Tile WALL) 1 wdraws)) = 2 \<and>
   separated (fst (generateRooms (RoomGenerator 12 6) (\<lambda>_. Tile WALL) 1 wdraws) ! 0)
             (fst (generateRooms (RoomGenerator 12 6) (\<lambda>_. Tile WALL) 1 wdraws) ! 1)"
proof -
  have u: "unitDraws wdraws" by (simp add: unitDraws_def wdraws_def)
  have g: "minRoomSize (RoomGenerator 12 6) = 3 \<and> 3 \<le> maxRoomSize (RoomGenerator 12 6)"
    by (simp add: RoomGenerator_def)
  have l: "length (fst (generateRooms (RoomGenerator 12 6) (\<lambda>_. Tile WALL) 1 wdraws)) = 2"
    by (simp add: generateRooms_example)
  from committed_rooms_are_separated
         [of "RoomGenerator 12 6" "\<lambda>_. Tile WALL"
             "\<lparr>room_x = 1, room_y = 1, room_width = 3, room_height = 3, isSpecial = False,
               center = (2, 2)\<rparr>" wdraws 1, THEN conjunct2] u g l
  have "separated (fst (generateRooms (RoomGenerator 12 6) (\<lambda>_. Tile WALL) 1 wdraws) ! 0)
                  (fst (generateRooms (RoomGenerator 12 6) (\<lambda>_. Tile WALL) 1 wdraws) ! 1)"
    by simp
  with u g l show ?thesis by simp
qed


section \<open>CorridorGenerator: connecting rooms\<close>

text \<open>
  \<open>connectRooms(map, rooms)\<close>. The set \<open>connected\<close> is a list of room indices in
  insertion order without repetition, which is the order in which a JavaScript \<open>Set\<close> is
  iterated; \<open>for (const i of connected)\<close> also visits the elements added while it runs,
  so \<open>scanConnected\<close> walks the list by position and re-reads it at every step.
  \<open>scanUnconnected\<close> is the inner loop over \<open>j\<close>. Its state is \<open>connected\<close>,
  \<open>minDistance\<close> (\<open>None\<close> for \<open>Infinity\<close>) and the pair of indices of \<open>roomA\<close> and
  \<open>roomB\<close> (\<open>None\<close> while both are undefined). Reading \<open>rooms[i].center\<close> for an index
  outside the list raises a \<open>TypeError\<close>. The \<open>while\<close> loop is \<open>connectLoop\<close>, which
  returns \<open>None\<close> when the loop does not end. In the loop of the extra corridors the two
  rooms are compared by identity: two entries of the list are the same object exactly when
  their indices are equal, and two indices outside the list both give \<open>undefined\<close>.
\<close>

definition calculateDistance :: "int \<times> int \<Rightarrow> int \<times> int \<Rightarrow> int" where
  "calculateDistance pointA pointB = \<bar>fst pointA - fst pointB\<bar> + \<bar>snd pointA - snd pointB\<bar>"

definition createElbowCorridor ::
  "int \<Rightarrow> int \<Rightarrow> grid \<Rightarrow> int \<Rightarrow> int \<Rightarrow> int \<Rightarrow> int \<Rightarrow> rng \<Rightarrow> grid \<times> rng" where
  "createElbowCorridor width height m x1 y1 x2 y2 r0 =
     (let (d, r1) = random r0;
          horizontalFirst = (d < 0.5)
      in if horizontalFirst then
           (vCorridor width height (hCorridor width height m x1 x2 y1) y1 y2 x2, r1)
         else
           (hCorridor width height (vCorridor width height m y1 y2 x1) x1 x2 y2, r1))"

function zigzagLoop ::
  "int \<Rightarrow> int \<Rightarrow> int \<Rightarrow> int \<Rightarrow> int \<Rightarrow> int \<Rightarrow> grid \<times> int \<times> int \<Rightarrow> grid \<times> int \<times> int" where
  "zigzagLoop width height x2 y2 segments i (m, currentX, currentY) =
     (if i < segments then
        (let targetX = (if i = segments - 1 then x2
                        else currentX +
                          \<lfloor>of_int (x2 - currentX) * (of_int (i + 1) / (of_int segments :: real))\<rfloor>);
             targetY = (if i = segments - 1 then y2
                        else currentY +
                          \<lfloor>of_int (y2 - currentY) * (of_int (i + 1) / (of_int segments :: real))\<rfloor>)
         in if i mod 2 = 0 then
              zigzagLoop width height x2 y2 segments (i + 1)
                (hCorridor width height m currentX targetX currentY, targetX, currentY)
            else
              zigzagLoop width height x2 y2 segments (i + 1)
                (vCorridor width height m currentY targetY currentX, currentX, targetY))
      else (m, currentX, currentY))"
  by pat_completeness auto
termination
  by (relation "measure (\<lambda>(width, height, x2, y2, segments, i, s). nat (segments - i))") auto

declare zigzagLoop.simps [simp del]

definition createZigzagCorridor ::
  "int \<Rightarrow> int \<Rightarrow> grid \<Rightarrow> int \<Rightarrow> int \<Rightarrow> int \<Rightarrow> int \<Rightarrow> rng \<Rightarrow> grid \<times> rng" where
  "createZigzagCorridor width height m x1 y1 x2 y2 r0 =
     (let (d, r1) = random r0;
          segments = \<lfloor>d * 3\<rfloor> + 2;
          (m1, currentX, currentY) = zigzagLoop width height x2 y2 segments 0 (m, x1, y1)
      in (vCorridor width height (hCorridor width height m1 currentX x2 currentY) currentY y2 x2,
          r1))"

definition createCorridor :: "int \<Rightarrow> int \<Rightarrow> grid \<Rightarrow> room \<Rightarrow> room \<Rightarrow> rng \<Rightarrow> grid \<times> rng" where
  "createCorridor width height m roomA roomB r0 =
     (let (x1, y1) = center roomA;
          (x2, y2) = center roomB;
          (d, r1) = random r0
      in if d < 0.5 then createElbowCorridor width height m x1 y1 x2 y2 r1
         else createZigzagCorridor width height m x1 y1 x2 y2 r1)"

type_synonym nearest = "nat list \<times> int option \<times> (nat \<times> nat) option"

function scanUnconnected :: "room list \<Rightarrow> nat \<Rightarrow> nat \<Rightarrow> nearest \<Rightarrow> error + nearest" where
  "scanUnconnected rooms i j (connectedSet, minDistance, pair) =
     (if j < length rooms then
        (if j \<in> set connectedSet then
           scanUnconnected rooms i (j + 1) (connectedSet, minDistance, pair)
         else if length rooms \<le> i then Inl TypeError
         else
           (let distance = calculateDistance (center (rooms ! i)) (center (rooms ! j))
            in if (case minDistance of None \<Rightarrow> True | Some d \<Rightarrow> distance < d) then
                 scanUnconnected rooms i (j + 1) (connectedSet @ [j], Some distance, Some (i, j))
               else scanUnconnected rooms i (j + 1) (connectedSet, minDistance, pair)))
      else Inr (connectedSet, minDistance, pair))"
  by pat_completeness auto
termination
  by (relation "measure (\<lambda>(rooms, i, j, s). length rooms - j)") auto

declare scanUnconnected.simps [simp del]

lemma scanUnconnected_grows:
  "scanUnconnected rooms i j (c, d, p) = Inr (c', d', p') \<Longrightarrow>
   length c \<le> length c' \<and>
   length c' + card ({..<length rooms} - set c') = length c + card ({..<length rooms} - set c)"
proof (induction rooms i j "(c, d, p)" arbitrary: c d p rule: scanUnconnected.induct)
  case (1 rooms i j c d p)
  note unf = scanUnconnected.simps [of rooms i j c d p]
  show ?case
  proof (cases "j < length rooms")
    case False
    with "1.prems" show ?thesis by (simp add: unf)
  next
    case lt: True
    show ?thesis
    proof (cases "j \<in> set c")
      case True
      from "1.prems" lt True
      have "scanUnconnected rooms i (j + 1) (c, d, p) = Inr (c', d', p')" by (simp add: unf)
      from "1.hyps"(1) [OF lt True this] show ?thesis .
    next
      case new: False
      from "1.prems" lt new have i: "\<not> length rooms \<le> i"
        by (auto simp: unf split: if_splits)
      let ?dist = "calculateDistance (center (rooms ! i)) (center (rooms ! j))"
      show ?thesis
      proof (cases "case d of None \<Rightarrow> True | Some d \<Rightarrow> ?dist < d")
        case True
        from "1.prems" lt new i True
        have "scanUnconnected rooms i (j + 1) (c @ [j], Some ?dist, Some (i, j)) = Inr (c', d', p')"
          by (simp add: unf Let_def)
        from "1.hyps"(2) [OF lt new i refl True this]
        have a: "length (c @ [j]) \<le> length c'"
          "length c' + card ({..<length rooms} - set c') =
           length (c @ [j]) + card ({..<length rooms} - set (c @ [j]))" by simp_all
        define S where "S = {..<length rooms} - set (c @ [j])"
        have fin: "finite S" and notin: "j \<notin> S" by (simp_all add: S_def)
        have "{..<length rooms} - set c = insert j S"
          using lt new by (auto simp: S_def)
        then have "card ({..<length rooms} - set c) = Suc (card S)"
          using card_insert_disjoint [OF fin notin] by simp
        then have "card ({..<length rooms} - set c) =
            Suc (card ({..<length rooms} - set (c @ [j])))"
          by (simp only: S_def)
        moreover have "length (c @ [j]) = Suc (length c)" by simp
        ultimately show ?thesis using a by linarith
      next
        case False
        from "1.prems" lt new i False
        have "scanUnconnected rooms i (j + 1) (c, d, p) = Inr (c', d', p')"
          by (simp add: unf Let_def)
        from "1.hyps"(3) [OF lt new i refl False this] show ?thesis .
      qed
    qed
  qed
qed

function scanConnected :: "room list \<Rightarrow> nat \<Rightarrow> nearest \<Rightarrow> error + nearest" where
  "scanConnected rooms k (connectedSet, minDistance, pair) =
     (if k < length connectedSet then
        (case scanUnconnected rooms (connectedSet ! k) 0 (connectedSet, minDistance, pair) of
           Inl e \<Rightarrow> Inl e
         | Inr s \<Rightarrow> scanConnected rooms (k + 1) s)
      else Inr (connectedSet, minDistance, pair))"
  by pat_completeness auto
termination
proof (relation "measure (\<lambda>(rooms, k, (c, d, p)).
          (length c - k) + card ({..<length rooms} - set c))")
  show "wf (measure (\<lambda>(rooms, k, (c, d, p)).
          (length c - k) + card ({..<length rooms} - set c)))" by simp
next
  fix rooms :: "room list" and k :: nat and connectedSet :: "nat list"
    and minDistance :: "int option" and pair :: "(nat \<times> nat) option" and s :: nearest
  assume k: "k < length connectedSet"
    and r0: "scanUnconnected rooms (connectedSet ! k) 0 (connectedSet, minDistance, pair) = Inr s"
  obtain c' d' p' where s: "s = (c', d', p')" using prod_cases3 by blast
  from scanUnconnected_grows [OF r0 [unfolded s]] k
  have "length c' - (k + 1) + card ({..<length rooms} - set c') <
        length connectedSet - k + card ({..<length rooms} - set connectedSet)"
    by linarith
  then show "((rooms, k + 1, s), (rooms, k, connectedSet, minDistance, pair))
        \<in> measure (\<lambda>(rooms, k, (c, d, p)).
          (length c - k) + card ({..<length rooms} - set c))"
    unfolding s by simp
qed

declare scanConnected.simps [simp del]

partial_function (option) connectLoop ::
  "int \<Rightarrow> int \<Rightarrow> room list \<Rightarrow> grid \<Rightarrow> nat list \<Rightarrow> rng \<Rightarrow>
   (error + grid \<times> nat list \<times> rng) option"
where
  "connectLoop width height rooms m connectedSet r0 =
     (if length connectedSet < length rooms then
        (case scanConnected rooms 0 (connectedSet, None, None) of
           Inl e \<Rightarrow> Some (Inl e)
         | Inr (connectedSet1, minDistance, pair) \<Rightarrow>
             (case pair of
                Some (a, b) \<Rightarrow>
                  (case createCorridor width height m (rooms ! a) (rooms ! b) r0 of
                     (m1, r1) \<Rightarrow> connectLoop width height rooms m1 connectedSet1 r1)
              | None \<Rightarrow> connectLoop width height rooms m connectedSet1 r0))
      else Some (Inr (m, connectedSet, r0)))"

definition roomAt :: "room list \<Rightarrow> int \<Rightarrow> nat option" where
  "roomAt rooms i = (if 0 \<le> i \<and> i < int (length rooms) then Some (nat i) else None)"

function extraLoop ::
  "int \<Rightarrow> int \<Rightarrow> room list \<Rightarrow> int \<Rightarrow> int \<Rightarrow> grid \<times> rng \<Rightarrow> error + grid \<times> rng" where
  "extraLoop width height rooms extraCorridors i (m, r0) =
     (if i < extraCorridors then
        (let (d1, r1) = random r0;
             roomA = roomAt rooms \<lfloor>d1 * of_int (int (length rooms))\<rfloor>;
             (d2, r2) = random r1;
             roomB = roomAt rooms \<lfloor>d2 * of_int (int (length rooms))\<rfloor>
         in if roomA \<noteq> roomB then
              (case (roomA, roomB) of
                 (Some a, Some b) \<Rightarrow>
                   extraLoop width height rooms extraCorridors (i + 1)
                     (createCorridor width height m (rooms ! a) (rooms ! b) r2)
               | _ \<Rightarrow> Inl TypeError)
            else extraLoop width height rooms extraCorridors (i + 1) (m, r2))
      else Inr (m, r0))"
  by pat_completeness auto
termination
  by (relation "measure (\<lambda>(width, height, rooms, n, i, s). nat (n - i))") auto

declare extraLoop.simps [simp del]

definition connectRooms ::
  "int \<Rightarrow> int \<Rightarrow> grid \<Rightarrow> room list \<Rightarrow> rng \<Rightarrow> (error + grid \<times> rng) option" where
  "connectRooms width height m rooms r0 =
     (if length rooms \<le> 1 then Some (Inr (m, r0))
      else
        (case connectLoop width height rooms m [0] r0 of
           None \<Rightarrow> None
         | Some (Inl e) \<Rightarrow> Some (Inl e)
         | Some (Inr (m1, connectedSet, r1)) \<Rightarrow>
             Some (extraLoop width height rooms (int (length rooms) div 4) 0 (m1, r1))))"

definition walkableSteps :: "int \<Rightarrow> int \<Rightarrow> grid \<Rightarrow> ((int \<times> int) \<times> (int \<times> int)) set" where
  "walkableSteps width height m =
     {(p, q). \<bar>fst p - fst q\<bar> + \<bar>snd p - snd q\<bar> = 1 \<and>
              inGrid width height p \<and> inGrid width height q \<and>
              isWalkable (m p) \<and> isWalkable (m q)}"


section \<open>Rooms that connectRooms leaves unreachable\<close>

text \<open>
  A corridor between two rooms whose centers lie on the same row changes no tile off that
  row, whichever style is drawn.
\<close>

lemma hCorridor_off_row: "snd p \<noteq> y \<Longrightarrow> hCorridor w h m x1 x2 y p = m p"
  by (simp add: hCorridor_dig dig_def hseg_def)

lemma vCorridor_off_row: "snd p \<noteq> y \<Longrightarrow> vCorridor w h m y y x p = m p"
  by (auto simp: vCorridor_dig dig_def vseg_def)

lemma zigzagLoop_off_row:
  "zigzagLoop w h x2 y segments i (m, cx, y) = (m', cx', cy') \<Longrightarrow>
   cy' = y \<and> (\<forall>p. snd p \<noteq> y \<longrightarrow> m' p = m p)"
proof (induction w h x2 y segments i "(m, cx, y)" arbitrary: m cx rule: zigzagLoop.induct)
  case (1 w h x2 y segments i m cx)
  note unf = zigzagLoop.simps [of w h x2 y segments i m cx y]
  show ?case
  proof (cases "i < segments")
    case False
    with "1.prems" show ?thesis by (simp add: unf)
  next
    case True
    define tx where "tx = (if i = segments - 1 then x2
        else cx + \<lfloor>of_int (x2 - cx) * (of_int (i + 1) / (of_int segments :: real))\<rfloor>)"
    have ty: "(if i = segments - 1 then y
        else y + \<lfloor>of_int (y - y) * (of_int (i + 1) / (of_int segments :: real))\<rfloor>) = y"
      by simp
    show ?thesis
    proof (cases "i mod 2 = 0")
      case even: True
      from "1.prems" True even
      have r: "zigzagLoop w h x2 y segments (i + 1) (hCorridor w h m cx tx y, tx, y) = (m', cx', cy')"
        by (simp add: unf Let_def tx_def ty)
      from "1.hyps"(1) [OF True tx_def ty [symmetric] even r]
      show ?thesis by (simp add: hCorridor_off_row)
    next
      case odd: False
      from "1.prems" True odd
      have r: "zigzagLoop w h x2 y segments (i + 1) (vCorridor w h m y y cx, cx, y) = (m', cx', cy')"
        by (simp add: unf Let_def tx_def ty)
      from "1.hyps"(2) [OF True tx_def ty [symmetric] odd] r
      show ?thesis by (simp add: vCorridor_off_row)
    qed
  qed
qed

lemma createCorridor_off_row:
  assumes "snd (center a) = y" "snd (center b) = y" "snd p \<noteq> y"
  shows "fst (createCorridor w h m a b r) p = m p"
proof -
  obtain x1 x2 where c: "center a = (x1, y)" "center b = (x2, y)"
    using assms(1,2) by (metis prod.collapse)
  have elbow: "fst (createElbowCorridor w h m x1 y x2 y r') p = m p" for r'
    using assms(3)
    by (simp add: createElbowCorridor_def Let_def hCorridor_off_row vCorridor_off_row
             split: prod.split)
  have zigzag: "fst (createZigzagCorridor w h m x1 y x2 y r') p = m p" for r'
  proof -
    obtain d r1 where rd: "random r' = (d, r1)" by (cases "random r'")
    obtain m1 cx cy where z:
      "zigzagLoop w h x2 y (\<lfloor>d * 3\<rfloor> + 2) 0 (m, x1, y) = (m1, cx, cy)"
      using prod_cases3 by blast
    from zigzagLoop_off_row [OF z] assms(3) have "cy = y" "m1 p = m p" by blast+
    with z assms(3) show ?thesis
      by (simp add: createZigzagCorridor_def Let_def rd hCorridor_off_row vCorridor_off_row)
  qed
  show ?thesis
    by (simp add: createCorridor_def c Let_def elbow zigzag split: prod.split)
qed


definition nonWallInRooms :: "grid \<Rightarrow> room list \<Rightarrow> bool" where
  "nonWallInRooms m rooms = (\<forall>p. char (m p) \<noteq> WALL \<longrightarrow> (\<exists>r \<in> set rooms. p \<in> rect r))"

lemma genLoop_nonWall:
  "nonWallInRooms m rooms \<Longrightarrow> genLoop g fl attempts i (m, rooms, r0) = (m', rooms', r') \<Longrightarrow>
   nonWallInRooms m' rooms'"
proof (induction g fl attempts i "(m, rooms, r0)" arbitrary: m rooms r0 rule: genLoop.induct)
  case (1 g fl attempts i m rooms r0)
  show ?case
  proof (cases "i < attempts \<and> \<not> int (length rooms) \<ge> maxRooms g")
    case False
    with "1.prems" show ?thesis by (auto simp: genLoop.simps [of g fl attempts i] split: if_splits)
  next
    case True
    obtain room r1 where gr: "generateRoom g fl r0 = (room, r1)" by (cases "generateRoom g fl r0")
    show ?thesis
    proof (cases "canPlaceRoom g m room")
      case can: True
      obtain m1 r2 where cr: "carveRoom m room r1 = (m1, r2)" by (cases "carveRoom m room r1")
      have "char (m1 p) = (if p \<in> rect room then FLOOR else char (m p))" for p
        using carveRoom_char [of m room r1 p] cr by simp
      with "1.prems"(1) have inv1: "nonWallInRooms m1 (rooms @ [room])"
        by (auto simp: nonWallInRooms_def)
      from "1.prems"(2) True gr can cr
      have "genLoop g fl attempts (i + 1) (m1, rooms @ [room], r2) = (m', rooms', r')"
        by (simp add: genLoop.simps [of g fl attempts i])
      from "1.hyps"(1) [OF _ _ gr [symmetric] refl can cr [symmetric] refl inv1 this] True
      show ?thesis by simp
    next
      case cannot: False
      from "1.prems"(2) True gr cannot
      have "genLoop g fl attempts (i + 1) (m, rooms, r1) = (m', rooms', r')"
        by (simp add: genLoop.simps [of g fl attempts i])
      from "1.hyps"(2) [OF _ _ gr [symmetric] refl cannot "1.prems"(1) this] True
      show ?thesis by simp
    qed
  qed
qed

lemma generateRooms_nonWall:
  assumes "char (fst (snd (generateRooms g (\<lambda>_. Tile WALL) fl r0)) p) \<noteq> WALL"
  shows "\<exists>r \<in> set (fst (generateRooms g (\<lambda>_. Tile WALL) fl r0)). p \<in> rect r"
proof -
  let ?g1 = "adjustRoomParams g fl"
  obtain m1 rooms r1 where
    l: "genLoop ?g1 fl (calculateRoomAttempts fl) 0 (\<lambda>_. Tile WALL, [], r0) = (m1, rooms, r1)"
    using prod_cases3 by blast
  have "nonWallInRooms (\<lambda>_. Tile WALL) []" by (simp add: nonWallInRooms_def Tile_def)
  from genLoop_nonWall [OF this l]
  have inv: "char (m1 p) \<noteq> WALL \<longrightarrow> (\<exists>r \<in> set rooms. p \<in> rect r)"
    unfolding nonWallInRooms_def by (rule spec)
  have "generateRooms g (\<lambda>_. Tile WALL) fl r0 = (rooms, m1, ?g1, r1)"
    by (simp add: generateRooms_def Let_def l)
  with inv assms show ?thesis by simp
qed

definition cdraws :: rng where
  "cdraws n = (if n = 4 \<or> n = 9 \<or> n = 14 then 1 / 2
               else if n = 7 then 13 / 50
               else if n = 8 then 43 / 100
               else if n = 12 then 1 / 10
               else 0)"

definition cornerRoom :: room where
  "cornerRoom = \<lparr>room_x = 1, room_y = 1, room_width = 3, room_height = 3, isSpecial = False,
                  center = (2, 2)\<rparr>"

definition farRoom :: room where
  "farRoom = \<lparr>room_x = 20, room_y = 20, room_width = 3, room_height = 3, isSpecial = False,
               center = (21, 21)\<rparr>"

definition nearRoom :: room where
  "nearRoom = \<lparr>room_x = 8, room_y = 1, room_width = 3, room_height = 3, isSpecial = False,
                center = (9, 2)\<rparr>"

lemma generateRooms_cdraws:
  "fst (generateRooms (RoomGenerator MAP_WIDTH MAP_HEIGHT) (\<lambda>_. Tile WALL) 1 cdraws) =
   [cornerRoom, farRoom, nearRoom]"
  by (simp add: generateRooms_def calculateRoomAttempts_def adjustRoomParams_def RoomGenerator_def
        MAP_WIDTH_def MAP_HEIGHT_def cornerRoom_def farRoom_def nearRoom_def
        genLoop.simps generateRoom_def random_def cdraws_def canPlaceRoom_def carveRoom_def
        carveCell_def Tile_def TILE_TYPES Let_def upto.simps)


lemma connectRooms_three:
  "connectRooms w h m [cornerRoom, farRoom, nearRoom] r =
     Some (Inr (createCorridor w h m cornerRoom nearRoom r))"
proof -
  let ?rooms = "[cornerRoom, farRoom, nearRoom]"
  have scan: "scanConnected ?rooms 0 ([0], None, None) = Inr ([0, 1, 2], Some 7, Some (0, 2))"
    by (simp add: scanConnected.simps scanUnconnected.simps calculateDistance_def
          cornerRoom_def farRoom_def nearRoom_def Let_def)
  obtain m1 r1 where c: "createCorridor w h m cornerRoom nearRoom r = (m1, r1)"
    by (cases "createCorridor w h m cornerRoom nearRoom r")
  have stop: "connectLoop w h ?rooms m1 [0, 1, 2] r1 = Some (Inr (m1, [0, 1, 2], r1))"
    by (subst connectLoop.simps) simp
  have loop: "connectLoop w h ?rooms m [0] r = Some (Inr (m1, [0, 1, 2], r1))"
    using stop by (subst connectLoop.simps) (simp add: scan c)
  show ?thesis
    by (simp add: connectRooms_def loop c extraLoop.simps)
qed


lemma sym_walkableSteps: "sym (walkableSteps w h m)"
  by (auto simp: walkableSteps_def sym_def)

lemma walled_room_closed:
  assumes wall: "\<forall>p \<in> marginRect r - rect r. \<not> isWalkable (m p)"
    and st: "(a, b) \<in> (walkableSteps w h m)\<^sup>*" and a: "a \<in> rect r"
  shows "b \<in> rect r"
  using st
proof (induction rule: rtrancl_induct)
  case base
  show ?case by (rule a)
next
  case (step b c)
  from step.hyps(2) have adj: "\<bar>fst b - fst c\<bar> + \<bar>snd b - snd c\<bar> = 1" and wc: "isWalkable (m c)"
    by (simp_all add: walkableSteps_def)
  from step.IH adj have "c \<in> marginRect r" by (auto simp: rect_def marginRect_def)
  with wc wall show ?case by blast
qed

lemma cdraws_unit: "unitDraws cdraws"
  by (simp add: unitDraws_def cdraws_def)

text \<open>
  C1. On the 80 by 50 map of the game, the draws \<open>cdraws\<close> (all in \<open>[0, 1)\<close>) make
  \<open>generateRooms\<close> commit three rooms on floor 1: one at (1, 1), one at (20, 20) and
  one at (8, 1), each 3 by 3; the products floored for these draws are 0, 19.5, 19.35
  and 7.5, which doubles floor to the same integers. In the first pass of the \<open>while\<close> loop of
  \<open>connectRooms\<close> the search from room 0 meets room 1 at distance 38, which is below
  \<open>Infinity\<close>, and adds it to \<open>connected\<close>; then it meets room 2 at distance 7 and
  adds it as well. The single corridor carved is the one between rooms 0 and 2, the loop
  ends because all three rooms are in \<open>connected\<close>, and no extra corridor is due for
  three rooms. \<open>connectRooms\<close> returns, and in the map it leaves there is no path of
  walkable tiles, by steps to the four neighbours, from the center of room 0 to the center
  of room 1.
\<close>

theorem connectRooms_leaves_room_unreachable:
  "unitDraws cdraws \<and>
   (case generateRooms (RoomGenerator MAP_WIDTH MAP_HEIGHT) (\<lambda>_. Tile WALL) 1 cdraws of
      (rooms, m1, g1, r1) \<Rightarrow>
        rooms = [cornerRoom, farRoom, nearRoom] \<and>
        (case connectRooms MAP_WIDTH MAP_HEIGHT m1 rooms r1 of
           Some (Inr (m2, r2)) \<Rightarrow>
             (center (rooms ! 0), center (rooms ! 1)) \<notin> (walkableSteps MAP_WIDTH MAP_HEIGHT m2)\<^sup>*
         | _ \<Rightarrow> False))"
proof -
  let ?G = "generateRooms (RoomGenerator MAP_WIDTH MAP_HEIGHT) (\<lambda>_. Tile WALL) 1 cdraws"
  obtain rooms m1 g1 r1 where G: "?G = (rooms, m1, g1, r1)" using prod_cases4 by blast
  from generateRooms_cdraws G have rooms: "rooms = [cornerRoom, farRoom, nearRoom]" by simp
  obtain m2 r2 where c: "createCorridor MAP_WIDTH MAP_HEIGHT m1 cornerRoom nearRoom r1 = (m2, r2)"
    by (cases "createCorridor MAP_WIDTH MAP_HEIGHT m1 cornerRoom nearRoom r1")
  have run: "connectRooms MAP_WIDTH MAP_HEIGHT m1 rooms r1 = Some (Inr (m2, r2))"
    by (simp add: rooms connectRooms_three c)
  have wall: "\<forall>p \<in> marginRect farRoom - rect farRoom. \<not> isWalkable (m2 p)"
  proof
    fix p assume p: "p \<in> marginRect farRoom - rect farRoom"
    then have row: "snd p \<noteq> 2" by (auto simp: marginRect_def farRoom_def)
    have "fst (createCorridor MAP_WIDTH MAP_HEIGHT m1 cornerRoom nearRoom r1) p = m1 p"
      by (rule createCorridor_off_row [OF _ _ row]) (simp_all add: cornerRoom_def nearRoom_def)
    then have eq: "m2 p = m1 p" by (simp add: c)
    have "\<not> (\<exists>r \<in> set rooms. p \<in> rect r)"
      using p unfolding rooms
      by (auto simp: marginRect_def rect_def cornerRoom_def farRoom_def nearRoom_def)
    with generateRooms_nonWall [of "RoomGenerator MAP_WIDTH MAP_HEIGHT" 1 cdraws p] G
    have "char (m1 p) = WALL" by auto
    with eq show "\<not> isWalkable (m2 p)" by (simp add: isWalkable_def isBlocking_def)
  qed
  have "(center farRoom, center cornerRoom) \<notin> (walkableSteps MAP_WIDTH MAP_HEIGHT m2)\<^sup>*"
  proof
    assume "(center farRoom, center cornerRoom) \<in> (walkableSteps MAP_WIDTH MAP_HEIGHT m2)\<^sup>*"
    from walled_room_closed [OF wall this] show False
      by (simp add: rect_def farRoom_def cornerRoom_def)
  qed
  moreover have "sym ((walkableSteps MAP_WIDTH MAP_HEIGHT m2)\<^sup>*)"
    by (rule sym_rtrancl) (rule sym_walkableSteps)
  ultimately have "(center cornerRoom, center farRoom) \<notin> (walkableSteps MAP_WIDTH MAP_HEIGHT m2)\<^sup>*"
    by (meson symD)
  then show ?thesis by (simp add: cdraws_unit G run [unfolded rooms] rooms)
qed


section \<open>FOV: recursive shadow casting\<close>

text \<open>
  The FOV object holds the cache: the list of visible positions of the last computation
  and its origin and radius. \<open>castShadows\<close> is the recursive method; \<open>castRows\<close> is
  its loop over the rows \<open>i\<close> and \<open>castCells\<close> the loop over the cells \<open>j\<close> of one
  row, which returns the flag \<open>blocked\<close> with the state. The state threaded through is
  the map and \<open>this.visibleTiles\<close>. The bounds check of \<open>castShadows\<close> is against
  \<open>MAP.WIDTH\<close> and \<open>MAP.HEIGHT\<close>, the size of the map of the game.

  Slopes are doubles in the source and reals here. \<open>getSlope\<close> is only called with a
  row \<open>i \<ge> 1\<close>, so no division by zero arises. The two claims proved below do not
  depend on rounding: the flags written do not depend on the slopes at all, and on a map
  without walls the only products taken are \<open>i * 1.0\<close> and \<open>i * 0.0\<close>, which are
  exact.

  \<open>calculate\<close> returns the FOV object with the result. Its first write,
  \<open>map[originY][originX].visible = true\<close>, is not guarded: for an origin outside the
  map it raises a \<open>TypeError\<close>, after the cache fields have been overwritten.
\<close>

record fov =
  visibleTiles :: "(int \<times> int) list"
  lastPlayerPos :: "int \<times> int"
  lastRadius :: int

definition FOV :: fov where
  "FOV = \<lparr>visibleTiles = [], lastPlayerPos = (- 1, - 1), lastRadius = - 1\<rparr>"

definition mapOctantToCoordinates :: "int \<Rightarrow> int \<Rightarrow> int \<Rightarrow> int \<Rightarrow> int \<Rightarrow> int \<times> int" where
  "mapOctantToCoordinates originX originY row col octant =
     (if octant = 0 then (originX + col, originY - row)
      else if octant = 1 then (originX + row, originY - col)
      else if octant = 2 then (originX + row, originY + col)
      else if octant = 3 then (originX + col, originY + row)
      else if octant = 4 then (originX - col, originY + row)
      else if octant = 5 then (originX - row, originY + col)
      else if octant = 6 then (originX - row, originY - col)
      else if octant = 7 then (originX - col, originY - row)
      else (originX, originY))"

definition getSlope :: "int \<Rightarrow> real \<Rightarrow> int \<Rightarrow> int \<Rightarrow> real" where
  "getSlope row col originX originY = col / of_int row"

definition markVisible :: "grid \<Rightarrow> int \<times> int \<Rightarrow> grid" where
  "markVisible m p = m(p := (m p)\<lparr>visible := True, discovered := True\<rparr>)"

function castShadows ::
    "grid \<times> (int \<times> int) list \<Rightarrow> int \<Rightarrow> int \<Rightarrow> int \<Rightarrow> int \<Rightarrow> real \<Rightarrow> real \<Rightarrow> int
       \<Rightarrow> grid \<times> (int \<times> int) list"
  and castRows ::
    "grid \<times> (int \<times> int) list \<Rightarrow> int \<Rightarrow> int \<Rightarrow> int \<Rightarrow> int \<Rightarrow> real \<Rightarrow> real \<Rightarrow> int
       \<Rightarrow> grid \<times> (int \<times> int) list"
  and castCells ::
    "grid \<times> (int \<times> int) list \<Rightarrow> int \<Rightarrow> int \<Rightarrow> int \<Rightarrow> int \<Rightarrow> real \<Rightarrow> real \<Rightarrow> int
       \<Rightarrow> int \<Rightarrow> bool \<Rightarrow> real \<Rightarrow> (grid \<times> (int \<times> int) list) \<times> bool"
where
  "castShadows s originX originY radius row startSlope endSlope octant =
     (if startSlope < endSlope then s
      else castRows s originX originY radius row startSlope endSlope octant)"
| "castRows s originX originY radius i startSlope endSlope octant =
     (if i \<le> radius then
        (let (s1, blocked) =
               castCells s originX originY radius i startSlope endSlope octant
                 \<lfloor>of_int i * endSlope\<rfloor> False startSlope
         in if blocked then s1
            else castRows s1 originX originY radius (i + 1) startSlope endSlope octant)
      else s)"
| "castCells s originX originY radius i startSlope endSlope octant j blocked newStart =
     (if j \<le> \<lceil>of_int i * startSlope\<rceil> then
        (let (mapX, mapY) = mapOctantToCoordinates originX originY i j octant
         in if mapX < 0 \<or> mapX \<ge> MAP_WIDTH \<or> mapY < 0 \<or> mapY \<ge> MAP_HEIGHT then
              castCells s originX originY radius i startSlope endSlope octant (j + 1) blocked newStart
            else
              (let dx = mapX - originX; dy = mapY - originY;
                   distanceSquared = dx * dx + dy * dy
               in if distanceSquared > radius * radius then
                    castCells s originX originY radius i startSlope endSlope octant (j + 1)
                      blocked newStart
                  else
                    (let s1 = (markVisible (fst s) (mapX, mapY), snd s @ [(mapX, mapY)])
                     in if \<not> blocked \<and> blocksVision (fst s1 (mapX, mapY)) then
                          (let newStart1 = getSlope i (of_int j - 0.5) originX originY;
                               s2 = castShadows s1 originX originY radius (i + 1) startSlope
                                      newStart1 octant
                           in castCells s2 originX originY radius i startSlope endSlope octant
                                (j + 1) True newStart1)
                        else if blocked \<and> \<not> blocksVision (fst s1 (mapX, mapY)) then
                          castCells s1 originX originY radius i startSlope endSlope octant
                            (j + 1) False (getSlope i (of_int j - 0.5) originX originY)
                        else
                          castCells s1 originX originY radius i startSlope endSlope octant
                            (j + 1) blocked newStart)))
      else (s, blocked))"
  by pat_completeness auto
termination
  by (relation "inv_image (less_than <*lex*> less_than <*lex*> less_than)
       (\<lambda>c. case c of
          Inl (s, ox, oy, radius, row, st, en, oct) \<Rightarrow> (2 * nat (radius + 1 - row) + 1, 0, 0)
        | Inr (Inl (s, ox, oy, radius, i, st, en, oct)) \<Rightarrow> (2 * nat (radius + 1 - i), 1, 0)
        | Inr (Inr (s, ox, oy, radius, i, st, en, oct, j, b, ns)) \<Rightarrow>
            (2 * nat (radius + 1 - (i + 1)) + 2, 0, nat (\<lceil>of_int i * st\<rceil> + 1 - j)))")
     auto


declare castShadows.simps [simp del] castRows.simps [simp del] castCells.simps [simp del]

definition calculate ::
  "fov \<Rightarrow> grid \<Rightarrow> int \<Rightarrow> int \<Rightarrow> int \<Rightarrow> fov \<times> (error + grid \<times> (int \<times> int) list)" where
  "calculate f m originX originY radius =
     (if lastPlayerPos f = (originX, originY) \<and> lastRadius f = radius then
        (f, Inr (m, visibleTiles f))
      else
        (let f1 = f\<lparr>lastPlayerPos := (originX, originY), lastRadius := radius,
                      visibleTiles := [(originX, originY)]\<rparr>
         in if originX < 0 \<or> originX \<ge> MAP_WIDTH \<or> originY < 0 \<or> originY \<ge> MAP_HEIGHT then
              (f1, Inl TypeError)
            else
              (let s0 = (markVisible m (originX, originY), visibleTiles f1);
                   s8 = fold (\<lambda>octant s. castShadows s originX originY radius 1 1.0 0.0 octant)
                          [0..7] s0
               in (f1\<lparr>visibleTiles := snd s8\<rparr>, Inr (fst s8, snd s8)))))"

definition resetVisibility :: "grid \<Rightarrow> grid" where
  "resetVisibility m =
     fold (\<lambda>y m. fold (\<lambda>x m. m((x, y) := (m (x, y))\<lparr>visible := False\<rparr>)) [0..MAP_WIDTH - 1] m)
       [0..MAP_HEIGHT - 1] m"

definition isVisible :: "fov \<Rightarrow> int \<Rightarrow> int \<Rightarrow> bool" where
  "isVisible f x y = ((x, y) \<in> set (visibleTiles f))"


section \<open>Visible tiles are discovered\<close>

lemma cast_preserves:
  fixes P :: "grid \<times> (int \<times> int) list \<Rightarrow> bool"
  assumes step: "\<And>s p. P s \<Longrightarrow> P (markVisible (fst s) p, snd s @ [p])"
  shows "P s \<Longrightarrow> P (castShadows s ox oy r row st en oct)"
    and "P s \<Longrightarrow> P (castRows s ox oy r i st en oct)"
    and "P s \<Longrightarrow> P (fst (castCells s ox oy r i st en oct j b ns))"
proof (induction s ox oy r row st en oct and s ox oy r i st en oct and s ox oy r i st en oct j b ns
       rule: castShadows_castRows_castCells.induct)
  case (1 s ox oy r row st en oct)
  then show ?case by (simp add: castShadows.simps)
next
  case (2 s ox oy r i st en oct)
  show ?case
  proof (cases "i \<le> r")
    case False
    with "2.prems" show ?thesis by (simp add: castRows.simps)
  next
    case True
    obtain s1 bl where c: "castCells s ox oy r i st en oct \<lfloor>of_int i * en\<rfloor> False st = (s1, bl)"
      by (cases "castCells s ox oy r i st en oct \<lfloor>of_int i * en\<rfloor> False st")
    from "2.IH"(1) [OF True "2.prems"] c have p1: "P s1" by simp
    show ?thesis
    proof (cases bl)
      case True
      with \<open>i \<le> r\<close> c p1 show ?thesis by (simp add: castRows.simps [of s])
    next
      case False
      from "2.IH"(2) [OF \<open>i \<le> r\<close> c [symmetric] refl False p1] \<open>i \<le> r\<close> c False
      show ?thesis by (simp add: castRows.simps [of s])
    qed
  qed
next
  case (3 s ox oy r i st en oct j b ns)
  show ?case
  proof (cases "j \<le> \<lceil>of_int i * st\<rceil>")
    case False
    with "3.prems" show ?thesis by (simp add: castCells.simps)
  next
    case le: True
    obtain mapX mapY where mo: "mapOctantToCoordinates ox oy i j oct = (mapX, mapY)"
      by (cases "mapOctantToCoordinates ox oy i j oct")
    note unf = castCells.simps [of s ox oy r i st en oct j]
    show ?thesis
    proof (cases "mapX < 0 \<or> mapX \<ge> MAP_WIDTH \<or> mapY < 0 \<or> mapY \<ge> MAP_HEIGHT")
      case oob: True
      from "3.IH"(1) [OF le mo [symmetric] refl oob "3.prems"] le mo oob
      show ?thesis by (simp add: unf)
    next
      case inb: False
      show ?thesis
      proof (cases "(mapX - ox) * (mapX - ox) + (mapY - oy) * (mapY - oy) > r * r")
        case far: True
        from "3.IH"(2) [OF le mo [symmetric] refl inb refl refl refl far "3.prems"] le mo inb far
        show ?thesis by (simp add: unf Let_def)
      next
        case near: False
        let ?s1 = "(markVisible (fst s) (mapX, mapY), snd s @ [(mapX, mapY)])"
        have p1: "P ?s1" by (rule step) (rule "3.prems")
        show ?thesis
        proof (cases "\<not> b \<and> blocksVision (fst ?s1 (mapX, mapY))")
          case wall: True
          let ?ns = "getSlope i (of_int j - 0.5) ox oy"
          let ?s2 = "castShadows ?s1 ox oy r (i + 1) st ?ns oct"
          from "3.IH"(3) [OF le mo [symmetric] refl inb refl refl refl near refl wall refl p1]
          have p2: "P ?s2" .
          from "3.IH"(4) [OF le mo [symmetric] refl inb refl refl refl near refl wall refl refl p2]
            le mo inb near wall
          show ?thesis by (simp add: unf Let_def)
        next
          case nowall: False
          show ?thesis
          proof (cases "b \<and> \<not> blocksVision (fst ?s1 (mapX, mapY))")
            case clear: True
            from "3.IH"(5) [OF le mo [symmetric] refl inb refl refl refl near refl nowall clear p1]
              le mo inb near nowall clear
            show ?thesis by (simp add: unf Let_def)
          next
            case same: False
            from "3.IH"(6) [OF le mo [symmetric] refl inb refl refl refl near refl nowall same p1]
              le mo inb near nowall same
            show ?thesis by (auto simp: unf Let_def)
          qed
        qed
      qed
    qed
  qed
qed


definition visibleImpliesDiscovered :: "grid \<Rightarrow> bool" where
  "visibleImpliesDiscovered m = (\<forall>p. visible (m p) \<longrightarrow> discovered (m p))"

definition seenSince :: "grid \<Rightarrow> grid \<times> (int \<times> int) list \<Rightarrow> bool" where
  "seenSince m s =
     ((\<forall>p. (visible (fst s p) \<longrightarrow> visible (m p) \<or> discovered (fst s p)) \<and>
           (discovered (m p) \<longrightarrow> discovered (fst s p))) \<and>
      (\<forall>q \<in> set (snd s). visible (fst s q) \<and> discovered (fst s q)))"

lemma seenSince_step: "seenSince m s \<Longrightarrow> seenSince m (markVisible (fst s) p, snd s @ [p])"
  by (auto simp: seenSince_def markVisible_def)

lemma seenSince_octants:
  "seenSince m s \<Longrightarrow>
   seenSince m (fold (\<lambda>octant s. castShadows s ox oy r 1 1.0 0.0 octant) octs s)"
proof (induction octs arbitrary: s)
  case Nil
  then show ?case by simp
next
  case (Cons oct octs)
  have "seenSince m (castShadows s ox oy r 1 1.0 0.0 oct)"
    by (rule cast_preserves(1) [where P = "seenSince m"]) (rule seenSince_step, assumption, rule Cons.prems)
  from Cons.IH [OF this] show ?case by simp
qed

lemma calculate_seenSince:
  assumes "calculate f m ox oy r = (f', Inr (m', vt))"
    and miss: "\<not> (lastPlayerPos f = (ox, oy) \<and> lastRadius f = r)"
  shows "seenSince m (m', vt)"
proof -
  have s0: "seenSince m (markVisible m (ox, oy), [(ox, oy)])"
    by (auto simp: seenSince_def markVisible_def)
  from assms have "(m', vt) = fold (\<lambda>octant s. castShadows s ox oy r 1 1.0 0.0 octant) [0..7]
                                (markVisible m (ox, oy), [(ox, oy)])"
    by (auto simp: calculate_def Let_def split: if_splits)
  with seenSince_octants [OF s0, of ox oy r "[0..7]"] show ?thesis by simp
qed

lemma calculate_cached:
  assumes "calculate f m ox oy r = (f', Inr (m', vt))"
    and hit: "lastPlayerPos f = (ox, oy) \<and> lastRadius f = r"
  shows "m' = m \<and> vt = visibleTiles f \<and> f' = f"
  using assms by (auto simp: calculate_def)

lemma reset_row:
  "fold (\<lambda>x m. m((x, y) := (m (x, y))\<lparr>visible := False\<rparr>)) xs m p =
     (if fst p \<in> set xs \<and> snd p = y then (m p)\<lparr>visible := False\<rparr> else m p)"
  by (induction xs arbitrary: m) (auto simp: prod_eq_iff)

lemma reset_rows:
  "fold (\<lambda>y m. fold (\<lambda>x m. m((x, y) := (m (x, y))\<lparr>visible := False\<rparr>)) xs m) ys m p =
     (if fst p \<in> set xs \<and> snd p \<in> set ys then (m p)\<lparr>visible := False\<rparr> else m p)"
  by (induction ys arbitrary: m) (auto simp: reset_row)

lemma resetVisibility_apply:
  "resetVisibility m p =
     (if 0 \<le> fst p \<and> fst p < MAP_WIDTH \<and> 0 \<le> snd p \<and> snd p < MAP_HEIGHT
      then (m p)\<lparr>visible := False\<rparr> else m p)"
  by (simp add: resetVisibility_def reset_rows)

text \<open>
  C6. A visibility computation keeps the invariant that every visible tile is discovered:
  it sets \<open>visible\<close> only together with \<open>discovered\<close>, it never clears
  \<open>discovered\<close>, and after a computation that was not answered from the cache every
  returned position is both visible and discovered on the map. \<open>resetVisibility\<close>
  clears only the \<open>visible\<close> flags.
\<close>

theorem visible_tiles_are_discovered:
  "(calculate f m ox oy r = (f', Inr (m', vt)) \<longrightarrow>
      (visibleImpliesDiscovered m \<longrightarrow> visibleImpliesDiscovered m') \<and>
      (\<forall>p. visible (m' p) \<and> \<not> visible (m p) \<longrightarrow> discovered (m' p)) \<and>
      (\<forall>p. discovered (m p) \<longrightarrow> discovered (m' p)) \<and>
      (\<not> (lastPlayerPos f = (ox, oy) \<and> lastRadius f = r) \<longrightarrow>
         (\<forall>q \<in> set vt. visible (m' q) \<and> discovered (m' q)))) \<and>
   (visibleImpliesDiscovered m \<longrightarrow> visibleImpliesDiscovered (resetVisibility m)) \<and>
   (\<forall>p. discovered (resetVisibility m p) = discovered (m p))"
proof -
  have 1: "(visibleImpliesDiscovered m \<longrightarrow> visibleImpliesDiscovered m') \<and>
      (\<forall>p. visible (m' p) \<and> \<not> visible (m p) \<longrightarrow> discovered (m' p)) \<and>
      (\<forall>p. discovered (m p) \<longrightarrow> discovered (m' p)) \<and>
      (\<not> (lastPlayerPos f = (ox, oy) \<and> lastRadius f = r) \<longrightarrow>
         (\<forall>q \<in> set vt. visible (m' q) \<and> discovered (m' q)))"
    if c: "calculate f m ox oy r = (f', Inr (m', vt))"
  proof (cases "lastPlayerPos f = (ox, oy) \<and> lastRadius f = r")
    case True
    from calculate_cached [OF c True] have "m' = m" by simp
    with True show ?thesis by simp
  next
    case False
    from calculate_seenSince [OF c False] have "seenSince m (m', vt)" .
    then show ?thesis unfolding seenSince_def visibleImpliesDiscovered_def fst_conv snd_conv
      by blast
  qed
  have 2: "visibleImpliesDiscovered m \<longrightarrow> visibleImpliesDiscovered (resetVisibility m)"
    by (simp add: visibleImpliesDiscovered_def resetVisibility_apply)
  have 3: "\<forall>p. discovered (resetVisibility m p) = discovered (m p)"
    by (simp add: resetVisibility_apply)
  from 1 2 3 show ?thesis by blast
qed


theorem visible_tiles_are_discovered_witness:
  "visibleImpliesDiscovered (\<lambda>_. Tile FLOOR) \<and>
   \<not> isl (snd (calculate FOV (\<lambda>_. Tile FLOOR) 5 5 1)) \<and>
   visibleImpliesDiscovered (fst (projr (snd (calculate FOV (\<lambda>_. Tile FLOOR) 5 5 1))))"
proof -
  have i: "visibleImpliesDiscovered (\<lambda>_. Tile FLOOR)"
    by (simp add: visibleImpliesDiscovered_def Tile_def)
  have r: "\<not> isl (snd (calculate FOV (\<lambda>_. Tile FLOOR) 5 5 1))"
    by code_simp
  then have "calculate FOV (\<lambda>_. Tile FLOOR) 5 5 1 =
        (fst (calculate FOV (\<lambda>_. Tile FLOOR) 5 5 1),
         Inr (fst (projr (snd (calculate FOV (\<lambda>_. Tile FLOOR) 5 5 1))),
              snd (projr (snd (calculate FOV (\<lambda>_. Tile FLOOR) 5 5 1)))))"
    by (simp add: prod_eq_iff)
  from visible_tiles_are_discovered [THEN conjunct1, rule_format, OF this] i
  have "visibleImpliesDiscovered (fst (projr (snd (calculate FOV (\<lambda>_. Tile FLOOR) 5 5 1))))"
    by blast
  with i r show ?thesis by blast
qed


section \<open>The visible set of an open area\<close>






















lemma calculate_miss:
  assumes "\<not> (lastPlayerPos f = (ox, oy) \<and> lastRadius f = r)"
    and "0 \<le> ox" "ox < MAP_WIDTH" "0 \<le> oy" "oy < MAP_HEIGHT"
  shows "calculate f m ox oy r =
           (f\<lparr>lastPlayerPos := (ox, oy), lastRadius := r,
               visibleTiles := snd (fold (\<lambda>octant s. castShadows s ox oy r 1 1 0 octant) [0..7]
                                      (markVisible m (ox, oy), [(ox, oy)]))\<rparr>,
            Inr (fold (\<lambda>octant s. castShadows s ox oy r 1 1 0 octant) [0..7]
                   (markVisible m (ox, oy), [(ox, oy)])))"
  using assms by (auto simp: calculate_def Let_def)








text \<open>
  A radius below 1 is degenerate: the loop over the rows does not run, and a computed
  answer is the origin alone. For the radius 0 that is the disk.
\<close>

lemma degenerate_radius:
  assumes "r < 1" and "\<not> (lastPlayerPos f = (ox, oy) \<and> lastRadius f = r)"
    and "0 \<le> ox" "ox < MAP_WIDTH" "0 \<le> oy" "oy < MAP_HEIGHT"
  shows "snd (calculate f m ox oy r) = Inr (markVisible m (ox, oy), [(ox, oy)])"
proof -
  have one: "castShadows s ox oy r 1 1 0 oct = s" for s oct
    using assms(1) by (simp add: castShadows.simps [of s ox oy r 1] castRows.simps [of s ox oy r 1])
  have "fold (\<lambda>octant s. castShadows s ox oy r 1 1 0 octant) octs s = s" for octs s
    by (induction octs arbitrary: s) (simp_all add: one)
  then show ?thesis unfolding calculate_miss [OF assms(2-6)] by simp
qed



section \<open>ItemPlacer\<close>

text \<open>
  A loot template and a placed item are the same JSON object; the fields the code reads
  or writes are modelled, the optional ones as options. \<open>JSON.parse(JSON.stringify(t))\<close>
  copies the template, which a value of a record already is.

  \<open>placeItems(map, items, floor, difficulty, lootPool)\<close> writes to the map, pushes to
  \<open>items\<close>, draws from \<open>Math.random()\<close>, takes ids from \<open>crypto.randomUUID()\<close>
  and warns on the console: these five are the fields of \<open>placer\<close>, which is passed in
  and returned. A missing pool (\<open>null\<close> or \<open>undefined\<close>) is \<open>None\<close>. The array
  reads \<open>pool[i]\<close> and \<open>validPositions[index]\<close> are in range for draws in
  \<open>[0, 1)\<close>; outside the range the source raises at the next use of the value
  (\<open>JSON.parse(undefined)\<close>, \<open>pos.x\<close>), which is the error branch here.
  \<open>maybePlace\<close> is one of the three guarded calls
  \<open>if (Math.random() < chance) this.placeItemOfType(...)\<close>.

  The item count of \<open>placeItems\<close> and the multiplier of \<open>adjustItemQuality\<close> are
  exact reals here and doubles in the source, which can differ by one after
  \<open>Math.floor\<close> (for \<open>25 * (58 / 50)\<close> the source places 28 items, not 29). Both
  are reached only with a pool that is not empty; the theorem below is about the first
  guard, before any arithmetic.
\<close>

record item =
  name :: string
  item_type :: string
  damage :: "real option"
  defense :: "real option"
  bonuses :: "(string \<rightharpoonup> int) option"
  item_id :: "string option"
  item_pos :: "(int \<times> int) option"

record placer =
  pmap :: grid
  items :: "item list"
  prng :: rng
  uuids :: "nat \<Rightarrow> string"
  console :: "string list"

definition truthy :: "real option \<Rightarrow> bool" where
  "truthy v = (case v of None \<Rightarrow> False | Some d \<Rightarrow> d \<noteq> 0)"

definition stringAt :: "string list \<Rightarrow> int \<Rightarrow> string" where
  "stringAt xs i = (if 0 \<le> i \<and> i < int (length xs) then xs ! nat i else ''undefined'')"

definition adjustItemQuality :: "item \<Rightarrow> int \<Rightarrow> rng \<Rightarrow> item \<times> rng" where
  "adjustItemQuality it floorN r0 =
     (let (d1, r1) = random r0;
          qualityMultiplier = 1.0 + of_int floorN * 0.1 + (d1 * 0.4 - 0.2);
          it1 = (if truthy (damage it)
                 then it\<lparr>damage := Some (of_int (max 1 \<lfloor>the (damage it) * qualityMultiplier\<rfloor>))\<rparr>
                 else it);
          it2 = (if truthy (defense it1)
                 then it1\<lparr>defense := Some (of_int (max 1 \<lfloor>the (defense it1) * qualityMultiplier\<rfloor>))\<rparr>
                 else it1);
          specialPropChance = 0.1 + of_int floorN * 0.03;
          (d2, r2) = random r1
      in if d2 < specialPropChance then
           (let bs = (case bonuses it2 of None \<Rightarrow> Map.empty | Some b \<Rightarrow> b);
                bonusTypes = [''strength'', ''defense'', ''speed'', ''maxHp''];
                (d3, r3) = random r2;
                bonusType = stringAt bonusTypes \<lfloor>d3 * of_int (int (length bonusTypes))\<rfloor>;
                bonusAmount = max 1 (floorN div 3);
                prefixes = [''Fine'', ''Superior'', ''Exceptional'', ''Masterwork'', ''Legendary''];
                prefix = stringAt prefixes (min (floorN div 3) (int (length prefixes) - 1))
            in (it2\<lparr>bonuses := Some (bs(bonusType \<mapsto> bonusAmount)),
                     name := prefix @ '' '' @ name it2\<rparr>, r3))
         else (it2, r2))"

definition getRandomItem :: "item list option \<Rightarrow> int \<Rightarrow> rng \<Rightarrow> error + (item option \<times> rng)" where
  "getRandomItem lootPool floorN r0 =
     (case lootPool of
        None \<Rightarrow> Inr (None, r0)
      | Some pool \<Rightarrow>
          if length pool = 0 then Inr (None, r0)
          else
            (let (d, r1) = random r0;
                 i = \<lfloor>d * of_int (int (length pool))\<rfloor>
             in if 0 \<le> i \<and> i < int (length pool) then
                  (let (it, r2) = adjustItemQuality (pool ! nat i) floorN r1
                   in Inr (Some it, r2))
                else Inl SyntaxError))"

definition getRandomItemOfType :: "item list \<Rightarrow> int \<Rightarrow> rng \<Rightarrow> error + (item option \<times> rng)" where
  "getRandomItemOfType typeItems floorN r0 = getRandomItem (Some typeItems) floorN r0"

definition splice1 :: "'a list \<Rightarrow> int \<Rightarrow> 'a list" where
  "splice1 xs index =
     (let n = int (length xs);
          start = (if index < 0 then max (n + index) 0 else min index n)
      in take (nat start) xs @ drop (nat start + 1) xs)"

definition validItemPosition :: "grid \<Rightarrow> int \<times> int \<Rightarrow> bool" where
  "validItemPosition m p = (char (m p) = FLOOR \<and> \<not> item (m p) \<and> trapData (m p) = None)"

definition findValidItemPositions :: "int \<Rightarrow> int \<Rightarrow> grid \<Rightarrow> (int \<times> int) list" where
  "findValidItemPositions width height m =
     concat (map (\<lambda>y. filter (validItemPosition m) (map (\<lambda>x. (x, y)) [1..width - 2]))
               [1..height - 2])"

text \<open>
  \<open>commitItem\<close> is the tail that both placement paths share: stamp the id and the
  position on the item, mark the tile, push the item and its position.
\<close>

definition commitItem ::
  "placer \<Rightarrow> item \<Rightarrow> int \<times> int \<Rightarrow> (int \<times> int \<times> item) list
     \<Rightarrow> placer \<times> (int \<times> int \<times> item) list" where
  "commitItem st it pos positions =
     (let it1 = it\<lparr>item_id := Some (uuids st 0), item_pos := Some pos\<rparr>
      in (st\<lparr>pmap := (pmap st)(pos := (pmap st pos)\<lparr>item := True\<rparr>),
             items := items st @ [it1],
             uuids := (\<lambda>n. uuids st (Suc n))\<rparr>,
          positions @ [(fst pos, snd pos, it1)]))"

definition placeItemOfType ::
  "placer \<Rightarrow> (int \<times> int) list \<Rightarrow> item list \<Rightarrow> string \<Rightarrow> int \<Rightarrow> (int \<times> int \<times> item) list
     \<Rightarrow> error + (placer \<times> (int \<times> int) list \<times> (int \<times> int \<times> item) list)" where
  "placeItemOfType st validPositions lootPool type floorN positions =
     (if length validPositions = 0 then Inr (st, validPositions, positions)
      else
        (let typeItems = filter (\<lambda>it. item_type it = type) lootPool
         in if length typeItems = 0 then Inr (st, validPositions, positions)
            else
              (let (d, r1) = random (prng st);
                   index = \<lfloor>d * of_int (int (length validPositions))\<rfloor>;
                   inRange = (0 \<le> index \<and> index < int (length validPositions));
                   rest = splice1 validPositions index
               in case getRandomItemOfType typeItems floorN r1 of
                    Inl e \<Rightarrow> Inl e
                  | Inr (None, r2) \<Rightarrow> Inr (st\<lparr>prng := r2\<rparr>, rest, positions)
                  | Inr (Some it, r2) \<Rightarrow>
                      if inRange then
                        (let (st1, positions1) =
                               commitItem (st\<lparr>prng := r2\<rparr>) it (validPositions ! nat index) positions
                         in Inr (st1, rest, positions1))
                      else Inl TypeError)))"


function placeLoop ::
  "item list \<Rightarrow> int \<Rightarrow> int \<Rightarrow> int \<Rightarrow> placer \<times> (int \<times> int) list \<times> (int \<times> int \<times> item) list
     \<Rightarrow> error + (placer \<times> (int \<times> int \<times> item) list)" where
  "placeLoop lootPool floorN itemCount i (st, validPositions, positions) =
     (if i < itemCount \<and> length validPositions > 0 then
        (let (d, r1) = random (prng st);
             index = \<lfloor>d * of_int (int (length validPositions))\<rfloor>;
             inRange = (0 \<le> index \<and> index < int (length validPositions));
             rest = splice1 validPositions index
         in case getRandomItem (Some lootPool) floorN r1 of
              Inl e \<Rightarrow> Inl e
            | Inr (None, r2) \<Rightarrow>
                placeLoop lootPool floorN itemCount (i + 1) (st\<lparr>prng := r2\<rparr>, rest, positions)
            | Inr (Some it, r2) \<Rightarrow>
                if inRange then
                  (let (st1, positions1) =
                         commitItem (st\<lparr>prng := r2\<rparr>) it (validPositions ! nat index) positions
                   in placeLoop lootPool floorN itemCount (i + 1) (st1, rest, positions1))
                else Inl TypeError)
      else Inr (st, positions))"
  by pat_completeness auto
termination
  by (relation "measure (\<lambda>(lootPool, floorN, itemCount, i, s). nat (itemCount - i))") auto

declare placeLoop.simps [simp del]

definition maybePlace ::
  "real \<Rightarrow> string \<Rightarrow> item list \<Rightarrow> int
     \<Rightarrow> placer \<times> (int \<times> int) list \<times> (int \<times> int \<times> item) list
     \<Rightarrow> error + (placer \<times> (int \<times> int) list \<times> (int \<times> int \<times> item) list)" where
  "maybePlace chance type lootPool floorN s =
     (let (st, validPositions, positions) = s;
          (d, r1) = random (prng st)
      in if d < chance
         then placeItemOfType (st\<lparr>prng := r1\<rparr>) validPositions lootPool type floorN positions
         else Inr (st\<lparr>prng := r1\<rparr>, validPositions, positions))"

definition placeItems ::
  "int \<Rightarrow> int \<Rightarrow> placer \<Rightarrow> int \<Rightarrow> int \<Rightarrow> item list option
     \<Rightarrow> error + (placer \<times> (int \<times> int \<times> item) list)" where
  "placeItems width height st floorN difficulty lootPool =
     (if lootPool = None \<or> length (the lootPool) = 0 then
        Inr (st\<lparr>console := console st @ [''No loot pool provided for item placement'']\<rparr>, [])
      else
        (let pool = the lootPool;
             positions = [];
             lootFactor = of_int difficulty / (50 :: real);
             baseItemCount = 3 + \<lfloor>of_int floorN * (1.2 :: real)\<rfloor>;
             itemCount = \<lfloor>of_int baseItemCount * lootFactor\<rfloor>;
             validPositions = findValidItemPositions width height (pmap st)
         in if length validPositions = 0 then Inr (st, positions)
            else
              (case maybePlace 0.7 ''weapon'' pool floorN (st, validPositions, positions) of
                 Inl e \<Rightarrow> Inl e
               | Inr s1 \<Rightarrow>
                   (case maybePlace 0.6 ''body_armor'' pool floorN s1 of
                      Inl e \<Rightarrow> Inl e
                    | Inr s2 \<Rightarrow>
                        (case maybePlace 0.5 ''helmet'' pool floorN s2 of
                           Inl e \<Rightarrow> Inl e
                         | Inr s3 \<Rightarrow> placeLoop pool floorN itemCount 0 s3)))))"


section \<open>An empty loot pool places nothing\<close>

text \<open>
  C9. Called with a missing or an empty loot pool, \<open>placeItems\<close> returns the empty
  list of placements without raising; the map, the item list and the random stream are
  as before, and the console holds one more warning.
\<close>

theorem empty_pool_places_nothing:
  "lootPool = None \<or> lootPool = Some [] \<Longrightarrow>
   placeItems width height st floorN difficulty lootPool =
     Inr (st\<lparr>console := console st @ [''No loot pool provided for item placement'']\<rparr>, [])"
  by (auto simp: placeItems_def)


theorem empty_pool_places_nothing_witness:
  "placeItems 80 50 \<lparr>pmap = (\<lambda>_. Tile FLOOR), items = [], prng = (\<lambda>_. 0), uuids = (\<lambda>_. ''id''),
                      console = []\<rparr> 1 50 None =
     Inr (\<lparr>pmap = (\<lambda>_. Tile FLOOR), items = [], prng = (\<lambda>_. 0), uuids = (\<lambda>_. ''id''),
           console = [''No loot pool provided for item placement'']\<rparr>, []) \<and>
   placeItems 80 50 \<lparr>pmap = (\<lambda>_. Tile FLOOR), items = [], prng = (\<lambda>_. 0), uuids = (\<lambda>_. ''id''),
                      console = []\<rparr> 1 50 (Some []) =
     Inr (\<lparr>pmap = (\<lambda>_. Tile FLOOR), items = [], prng = (\<lambda>_. 0), uuids = (\<lambda>_. ''id''),
           console = [''No loot pool provided for item placement'']\<rparr>, [])"
  using empty_pool_places_nothing [of None 80 50
          "\<lparr>pmap = (\<lambda>_. Tile FLOOR), items = [], prng = (\<lambda>_. 0), uuids = (\<lambda>_. ''id''),
            console = []\<rparr>" 1 50]
        empty_pool_places_nothing [of "Some []" 80 50
          "\<lparr>pmap = (\<lambda>_. Tile FLOOR), items = [], prng = (\<lambda>_. 0), uuids = (\<lambda>_. ''id''),
            console = []\<rparr>" 1 50]
  by simp


section \<open>PriorityQueue\<close>

text \<open>
  The queue of the path finder: the array \<open>values\<close> of element objects, kept as a binary
  heap, and the map \<open>valueMap\<close> from a value to its element object. The same object
  is referenced from both, and \<open>updatePriority\<close> writes its priority through the
  reference of the map. An element therefore carries an identity \<open>eid\<close>, given at
  allocation from the counter \<open>nextId\<close>: \<open>indexOf\<close> looks an object up by its
  identity, and a write to an object is a write to every copy with that identity. The
  fields \<open>values\<close> and \<open>value\<close> of the source are \<open>pq_values\<close> and
  \<open>elem_value\<close> here.

  \<open>bubbleUpFrom\<close> and \<open>sinkDownFrom\<close> are the loops of \<open>_bubbleUp\<close>,
  \<open>_bubbleUpElement\<close>, \<open>_sinkDown\<close> and \<open>_sinkDownElement\<close>, started at the
  index of the element. When \<open>indexOf\<close> returns \<open>-1\<close>, the loop of
  \<open>_bubbleUpElement\<close> does not run, and \<open>_sinkDownElement\<close> reads
  \<open>this.values[-1].priority\<close>, which raises a \<open>TypeError\<close>.
\<close>

type_synonym key = "int \<times> int"

record 'k element =
  eid :: nat
  elem_value :: 'k
  priority :: real

record 'k priorityQueue =
  pq_values :: "'k element list"
  valueMap :: "'k \<rightharpoonup> 'k element"
  nextId :: nat

definition PriorityQueue :: "'k priorityQueue" where
  "PriorityQueue = \<lparr>pq_values = [], valueMap = Map.empty, nextId = 0\<rparr>"

definition isEmpty :: "'k priorityQueue \<Rightarrow> bool" where
  "isEmpty q = (length (pq_values q) = 0)"

definition containsValue :: "'k priorityQueue \<Rightarrow> 'k \<Rightarrow> bool" where
  "containsValue q v = (valueMap q v \<noteq> None)"

function bubbleUpFrom :: "'k element \<Rightarrow> nat \<Rightarrow> 'k element list \<Rightarrow> 'k element list" where
  "bubbleUpFrom element idx vs =
     (if idx > 0 then
        (let parentIdx = (idx - 1) div 2;
             parent = vs ! parentIdx
         in if priority element \<ge> priority parent then vs
            else bubbleUpFrom element parentIdx (vs[parentIdx := element, idx := parent]))
      else vs)"
  by pat_completeness auto
termination
  by (relation "measure (\<lambda>(element, idx, vs). idx)") auto

function sinkDownFrom :: "'k element \<Rightarrow> nat \<Rightarrow> 'k element list \<Rightarrow> 'k element list" where
  "sinkDownFrom element idx vs =
     (let leftChildIdx = 2 * idx + 1;
          rightChildIdx = 2 * idx + 2;
          swap0 = (if leftChildIdx < length vs \<and> priority (vs ! leftChildIdx) < priority element
                   then Some leftChildIdx else None);
          swap = (if rightChildIdx < length vs \<and>
                     (swap0 = None \<and> priority (vs ! rightChildIdx) < priority element \<or>
                      swap0 \<noteq> None \<and> priority (vs ! rightChildIdx) < priority (vs ! leftChildIdx))
                  then Some rightChildIdx else swap0)
      in case swap of
           None \<Rightarrow> vs
         | Some sw \<Rightarrow> sinkDownFrom element sw (vs[idx := vs ! sw, sw := element]))"
  by pat_completeness auto
termination
  by (relation "measure (\<lambda>(element, idx, vs). length vs - idx)")
     (auto split: if_splits)

declare bubbleUpFrom.simps [simp del] sinkDownFrom.simps [simp del]

definition indexOf :: "'k element list \<Rightarrow> 'k element \<Rightarrow> int" where
  "indexOf vs element =
     (case filter (\<lambda>i. eid (vs ! i) = eid element) [0..<length vs] of
        [] \<Rightarrow> - 1
      | i # _ \<Rightarrow> int i)"


definition enqueue :: "'k priorityQueue \<Rightarrow> 'k \<Rightarrow> real \<Rightarrow> 'k priorityQueue" where
  "enqueue q v p =
     (let element = \<lparr>eid = nextId q, elem_value = v, priority = p\<rparr>;
          vs = pq_values q @ [element];
          idx = length vs - 1
      in q\<lparr>pq_values := bubbleUpFrom (vs ! idx) idx vs,
            valueMap := (valueMap q)(v \<mapsto> element),
            nextId := Suc (nextId q)\<rparr>)"

definition dequeue :: "'k priorityQueue \<Rightarrow> 'k option \<times> 'k priorityQueue" where
  "dequeue q =
     (if isEmpty q then (None, q)
      else
        (let min = pq_values q ! 0;
             end = last (pq_values q);
             vs1 = butlast (pq_values q);
             vm = (valueMap q)(elem_value min := None);
             vs2 = (if length vs1 > 0
                    then (let vs = vs1[0 := end] in sinkDownFrom (vs ! 0) 0 vs)
                    else vs1)
         in (Some (elem_value min), q\<lparr>pq_values := vs2, valueMap := vm\<rparr>)))"

definition bubbleUpElement :: "'k element list \<Rightarrow> 'k element \<Rightarrow> 'k element list" where
  "bubbleUpElement vs element =
     (let idx = indexOf vs element
      in if idx < 0 then vs else bubbleUpFrom element (nat idx) vs)"

definition sinkDownElement :: "'k element list \<Rightarrow> 'k element \<Rightarrow> error + 'k element list" where
  "sinkDownElement vs element =
     (let idx = indexOf vs element
      in if idx < 0 then Inl TypeError else Inr (sinkDownFrom element (nat idx) vs))"

definition updatePriority ::
  "'k priorityQueue \<Rightarrow> 'k \<Rightarrow> real \<Rightarrow> error + bool \<times> 'k priorityQueue" where
  "updatePriority q v newPriority =
     (case valueMap q v of
        None \<Rightarrow> Inr (False, q)
      | Some element \<Rightarrow>
          (let oldPriority = priority element;
               element1 = element\<lparr>priority := newPriority\<rparr>;
               vs = map (\<lambda>e. if eid e = eid element then e\<lparr>priority := newPriority\<rparr> else e)
                      (pq_values q);
               q1 = q\<lparr>pq_values := vs, valueMap := (valueMap q)(v \<mapsto> element1)\<rparr>
           in if newPriority < oldPriority then
                Inr (True, q1\<lparr>pq_values := bubbleUpElement vs element1\<rparr>)
              else if newPriority > oldPriority then
                (case sinkDownElement vs element1 of
                   Inl e \<Rightarrow> Inl e
                 | Inr vs1 \<Rightarrow> Inr (True, q1\<lparr>pq_values := vs1\<rparr>))
              else Inr (True, q1)))"


section \<open>PathFinder\<close>

text \<open>
  The map object of the path finder is not part of the sources at hand; only its two
  methods \<open>isInBounds(x, y)\<close> and \<open>getTile(x, y)\<close> and five fields of the tiles it
  returns are used. It is a parameter here: a record of two arbitrary functions, where
  \<open>getTile\<close> returns \<open>None\<close> for a missing tile. The method \<open>isWalkable\<close> of
  the path finder is \<open>isWalkablePos\<close>, and the field \<open>hidden\<close> of these tiles is
  \<open>tile_hidden\<close>.

  A key is the string \<open>x,y\<close> in the source; \<open>posToKey\<close> and \<open>keyToPos\<close> are
  inverse to each other on integers, and a key is the pair itself here. The entity map
  is only asked whether it has a key, and is the set of its keys. Costs and scores are
  doubles in the source and reals here.

  \<open>findPath\<close> applies its options for the duration of the call and restores the
  previous ones before every return, so the path finder is the same after the call and
  is not returned. The main loop is \<open>astar\<close>; it returns, with the outcome, the value
  of the local counter \<open>iterations\<close> at the return, which \<open>findPath\<close> drops. The
  loop of \<open>reconstructPath\<close> follows \<open>cameFrom\<close> until a key has no entry and has
  no bound of its own: it is a partial function, and an outcome is a returned path or
  \<open>null\<close>, a raised error, or no return at all.
\<close>

record mapTile =
  walkable :: bool
  hasTrap :: bool
  tile_hidden :: bool
  moveCost :: "real option"
  transparent :: bool

record dungeonMap =
  isInBounds :: "int \<Rightarrow> int \<Rightarrow> bool"
  getTile :: "int \<Rightarrow> int \<Rightarrow> mapTile option"

record pathFinder =
  pf_map :: "dungeonMap option"
  allowDiagonal :: bool
  avoidEntities :: bool
  avoidTraps :: bool
  cutCorners :: bool
  maxIterations :: int
  heuristicWeight :: real
  entityMap :: "key set"

record options =
  opt_allowDiagonal :: "bool option"
  opt_avoidEntities :: "bool option"
  opt_avoidTraps :: "bool option"
  opt_cutCorners :: "bool option"
  opt_maxIterations :: "int option"
  opt_heuristicWeight :: "real option"

definition PathFinder :: "dungeonMap option \<Rightarrow> pathFinder" where
  "PathFinder m =
     \<lparr>pf_map = m, allowDiagonal = True, avoidEntities = True, avoidTraps = True,
      cutCorners = False, maxIterations = 1000, heuristicWeight = 1.2, entityMap = {}\<rparr>"

definition noOptions :: options where
  "noOptions =
     \<lparr>opt_allowDiagonal = None, opt_avoidEntities = None, opt_avoidTraps = None,
      opt_cutCorners = None, opt_maxIterations = None, opt_heuristicWeight = None\<rparr>"

definition setOptions :: "pathFinder \<Rightarrow> options \<Rightarrow> pathFinder" where
  "setOptions pf opts =
     pf\<lparr>allowDiagonal := (case opt_allowDiagonal opts of None \<Rightarrow> allowDiagonal pf | Some v \<Rightarrow> v),
        avoidEntities := (case opt_avoidEntities opts of None \<Rightarrow> avoidEntities pf | Some v \<Rightarrow> v),
        avoidTraps := (case opt_avoidTraps opts of None \<Rightarrow> avoidTraps pf | Some v \<Rightarrow> v),
        cutCorners := (case opt_cutCorners opts of None \<Rightarrow> cutCorners pf | Some v \<Rightarrow> v),
        maxIterations := (case opt_maxIterations opts of None \<Rightarrow> maxIterations pf | Some v \<Rightarrow> v),
        heuristicWeight :=
          (case opt_heuristicWeight opts of None \<Rightarrow> heuristicWeight pf | Some v \<Rightarrow> v)\<rparr>"

definition posToKey :: "int \<Rightarrow> int \<Rightarrow> key" where
  "posToKey x y = (x, y)"

definition keyToPos :: "key \<Rightarrow> int \<times> int" where
  "keyToPos k = k"

definition isOccupiedByEntity :: "pathFinder \<Rightarrow> int \<Rightarrow> int \<Rightarrow> bool" where
  "isOccupiedByEntity pf x y =
     (if \<not> avoidEntities pf then False else posToKey x y \<in> entityMap pf)"

definition isWalkablePos :: "pathFinder \<Rightarrow> dungeonMap \<Rightarrow> int \<Rightarrow> int \<Rightarrow> bool" where
  "isWalkablePos pf m x y =
     (if \<not> isInBounds m x y then False
      else case getTile m x y of
        None \<Rightarrow> False
      | Some tile \<Rightarrow>
          if \<not> walkable tile then False
          else if avoidEntities pf \<and> isOccupiedByEntity pf x y then False
          else if avoidTraps pf \<and> hasTrap tile \<and> \<not> tile_hidden tile then False
          else True)"

definition checkNeighbor ::
  "pathFinder \<Rightarrow> dungeonMap \<Rightarrow> int \<Rightarrow> int \<Rightarrow> real \<Rightarrow> (int \<times> int \<times> real) list
     \<Rightarrow> (int \<times> int \<times> real) list" where
  "checkNeighbor pf m x y baseCost neighbors =
     (if isWalkablePos pf m x y then
        (let cost = (case getTile m x y of
                       Some tile \<Rightarrow>
                         (case moveCost tile of
                            Some c \<Rightarrow> if c \<noteq> 0 then baseCost * c else baseCost
                          | None \<Rightarrow> baseCost)
                     | None \<Rightarrow> baseCost)
         in neighbors @ [(x, y, cost)])
      else neighbors)"

definition getNeighbors :: "pathFinder \<Rightarrow> dungeonMap \<Rightarrow> int \<Rightarrow> int \<Rightarrow> (int \<times> int \<times> real) list" where
  "getNeighbors pf m x y =
     (let n1 = checkNeighbor pf m (x + 1) y 1 [];
          n2 = checkNeighbor pf m (x - 1) y 1 n1;
          n3 = checkNeighbor pf m x (y + 1) 1 n2;
          n4 = checkNeighbor pf m x (y - 1) 1 n3
      in if allowDiagonal pf then
           (let diagonalCost = 1.4;
                n5 = (if cutCorners pf \<or> (isWalkablePos pf m (x + 1) y \<and> isWalkablePos pf m x (y + 1))
                      then checkNeighbor pf m (x + 1) (y + 1) diagonalCost n4 else n4);
                n6 = (if cutCorners pf \<or> (isWalkablePos pf m (x + 1) y \<and> isWalkablePos pf m x (y - 1))
                      then checkNeighbor pf m (x + 1) (y - 1) diagonalCost n5 else n5);
                n7 = (if cutCorners pf \<or> (isWalkablePos pf m (x - 1) y \<and> isWalkablePos pf m x (y + 1))
                      then checkNeighbor pf m (x - 1) (y + 1) diagonalCost n6 else n6);
                n8 = (if cutCorners pf \<or> (isWalkablePos pf m (x - 1) y \<and> isWalkablePos pf m x (y - 1))
                      then checkNeighbor pf m (x - 1) (y - 1) diagonalCost n7 else n7)
            in n8)
         else n4)"

definition heuristic :: "pathFinder \<Rightarrow> int \<Rightarrow> int \<Rightarrow> int \<Rightarrow> int \<Rightarrow> real" where
  "heuristic pf x1 y1 x2 y2 =
     (if allowDiagonal pf then
        (let dx = \<bar>x1 - x2\<bar>; dy = \<bar>y1 - y2\<bar>
         in of_int (dx + dy) + (sqrt 2 - 2) * of_int (min dx dy))
      else of_int (\<bar>x1 - x2\<bar> + \<bar>y1 - y2\<bar>))"

record search =
  openSet :: "key priorityQueue"
  closedSet :: "key set"
  gScore :: "key \<rightharpoonup> real"
  fScore :: "key \<rightharpoonup> real"
  cameFrom :: "key \<rightharpoonup> key"
  iterations :: int

definition processNeighbor ::
  "pathFinder \<Rightarrow> int \<Rightarrow> int \<Rightarrow> key \<Rightarrow> int \<times> int \<times> real \<Rightarrow> search \<Rightarrow> error + search" where
  "processNeighbor pf endX endY currentKey neighbor s =
     (let (nx, ny, cost) = neighbor;
          neighborKey = posToKey nx ny
      in if neighborKey \<in> closedSet s then Inr s
         else
           (let tentativeGScore = the (gScore s currentKey) + cost;
                neighborInOpenSet = containsValue (openSet s) neighborKey
            in if \<not> neighborInOpenSet \<or> tentativeGScore < the (gScore s neighborKey) then
                 (let s1 = s\<lparr>cameFrom := (cameFrom s)(neighborKey \<mapsto> currentKey),
                              gScore := (gScore s)(neighborKey \<mapsto> tentativeGScore),
                              fScore := (fScore s)(neighborKey \<mapsto>
                                tentativeGScore + heuristic pf nx ny endX endY * heuristicWeight pf)\<rparr>
                  in if \<not> neighborInOpenSet then
                       Inr (s1\<lparr>openSet := enqueue (openSet s1) neighborKey (the (fScore s1 neighborKey))\<rparr>)
                     else
                       (case updatePriority (openSet s1) neighborKey (the (fScore s1 neighborKey)) of
                          Inl e \<Rightarrow> Inl e
                        | Inr (b, q) \<Rightarrow> Inr (s1\<lparr>openSet := q\<rparr>)))
               else Inr s))"

fun processNeighbors ::
  "pathFinder \<Rightarrow> int \<Rightarrow> int \<Rightarrow> key \<Rightarrow> (int \<times> int \<times> real) list \<Rightarrow> search \<Rightarrow> error + search" where
  "processNeighbors pf endX endY currentKey [] s = Inr s"
| "processNeighbors pf endX endY currentKey (neighbor # rest) s =
     (case processNeighbor pf endX endY currentKey neighbor s of
        Inl e \<Rightarrow> Inl e
      | Inr s1 \<Rightarrow> processNeighbors pf endX endY currentKey rest s1)"

partial_function (option) reconstructLoop ::
  "(key \<rightharpoonup> key) \<Rightarrow> key \<Rightarrow> (int \<times> int) list \<Rightarrow> (key \<times> (int \<times> int) list) option" where
  "reconstructLoop cf current path =
     (if cf current \<noteq> None
      then reconstructLoop cf (the (cf current)) (keyToPos current # path)
      else Some (current, path))"

definition reconstructPath :: "(key \<rightharpoonup> key) \<Rightarrow> key \<Rightarrow> (int \<times> int) list option" where
  "reconstructPath cf currentKey =
     (case reconstructLoop cf currentKey [] of
        None \<Rightarrow> None
      | Some (current, path) \<Rightarrow>
          Some (if length path > 0 then keyToPos current # path else path))"

datatype outcome = Returns "(int \<times> int) list option" | Raises error | Diverges

lemma processNeighbor_iterations:
  "processNeighbor pf ex ey ck n s = Inr s' \<Longrightarrow> iterations s' = iterations s"
  by (auto simp: processNeighbor_def Let_def split: prod.splits if_splits sum.splits)

lemma processNeighbors_iterations:
  "processNeighbors pf ex ey ck ns s = Inr s' \<Longrightarrow> iterations s' = iterations s"
  by (induction ns arbitrary: s) (auto split: sum.splits dest: processNeighbor_iterations)

function astar :: "pathFinder \<Rightarrow> dungeonMap \<Rightarrow> int \<Rightarrow> int \<Rightarrow> search \<Rightarrow> outcome \<times> int" where
  "astar pf m endX endY s =
     (if \<not> isEmpty (openSet s) \<and> iterations s < maxIterations pf then
        (let s1 = s\<lparr>iterations := iterations s + 1\<rparr>
         in case dequeue (openSet s1) of
              (None, q) \<Rightarrow> (Raises TypeError, iterations s1)
            | (Some currentKey, q) \<Rightarrow>
                (let (currentX, currentY) = keyToPos currentKey
                 in if currentX = endX \<and> currentY = endY then
                      (case reconstructPath (cameFrom s1) currentKey of
                         None \<Rightarrow> (Diverges, iterations s1)
                       | Some path \<Rightarrow> (Returns (Some path), iterations s1))
                    else
                      (let s2 = s1\<lparr>openSet := q, closedSet := insert currentKey (closedSet s1)\<rparr>;
                           neighbors = getNeighbors pf m currentX currentY
                       in case processNeighbors pf endX endY currentKey neighbors s2 of
                            Inl e \<Rightarrow> (Raises e, iterations s2)
                          | Inr s3 \<Rightarrow> astar pf m endX endY s3)))
      else (Returns None, iterations s))"
  by pat_completeness auto
termination
proof (relation "measure (\<lambda>(pf, m, endX, endY, s). nat (maxIterations pf - iterations s))")
  show "wf (measure (\<lambda>(pf, m, endX, endY, s). nat (maxIterations pf - iterations s)))" by simp
next
  fix pf m endX endY s s1 x1 q currentKey x y currentX currentY s2 neighbors s3
  assume a: "\<not> isEmpty (openSet s) \<and> iterations s < maxIterations pf"
    "s1 = s\<lparr>iterations := iterations s + 1\<rparr>"
    "s2 = s1\<lparr>openSet := q, closedSet := insert currentKey (closedSet s1)\<rparr>"
    "processNeighbors pf endX endY currentKey neighbors s2 = Inr s3"
  from processNeighbors_iterations [OF a(4)] a(2,3) have "iterations s3 = iterations s + 1" by simp
  with a(1) show "((pf, m, endX, endY, s3), (pf, m, endX, endY, s))
        \<in> measure (\<lambda>(pf, m, endX, endY, s). nat (maxIterations pf - iterations s))"
    by simp
qed

declare astar.simps [simp del]

definition findPathRun ::
  "pathFinder \<Rightarrow> int \<Rightarrow> int \<Rightarrow> int \<Rightarrow> int \<Rightarrow> options \<Rightarrow> outcome \<times> int" where
  "findPathRun pf startX startY endX endY opts =
     (let pf1 = setOptions pf opts
      in case pf_map pf1 of
           None \<Rightarrow> (Returns None, 0)
         | Some m \<Rightarrow>
             if \<not> isWalkablePos pf1 m startX startY \<or> \<not> isWalkablePos pf1 m endX endY
             then (Returns None, 0)
             else
               (let startKey = posToKey startX startY;
                    g = [startKey \<mapsto> 0];
                    f = [startKey \<mapsto> heuristic pf1 startX startY endX endY];
                    q = enqueue PriorityQueue startKey (the (f startKey))
                in astar pf1 m endX endY
                     \<lparr>openSet = q, closedSet = {}, gScore = g, fScore = f,
                      cameFrom = Map.empty, iterations = 0\<rparr>))"

definition findPath :: "pathFinder \<Rightarrow> int \<Rightarrow> int \<Rightarrow> int \<Rightarrow> int \<Rightarrow> options \<Rightarrow> outcome" where
  "findPath pf startX startY endX endY opts = fst (findPathRun pf startX startY endX endY opts)"

section \<open>The queue keeps its keys\<close>

text \<open>
  What the search needs of the heap: the loops permute the array, so the set of keys in
  the queue changes as a set would, and \<open>valueMap\<close> stays an index of the array.
\<close>

lemma bubbleUpFrom_mset:
  "idx < length vs \<Longrightarrow> vs ! idx = element \<Longrightarrow> mset (bubbleUpFrom element idx vs) = mset vs"
proof (induction element idx vs rule: bubbleUpFrom.induct)
  case (1 element idx vs)
  show ?case
  proof (cases "idx > 0 \<and> \<not> priority element \<ge> priority (vs ! ((idx - 1) div 2))")
    case False
    then show ?thesis by (auto simp: bubbleUpFrom.simps [of element idx vs] Let_def)
  next
    case True
    let ?p = "(idx - 1) div 2"
    let ?vs = "vs[?p := element, idx := vs ! ?p]"
    from True "1.prems" have p: "?p < idx" "?p < length vs" by auto
    have sw: "mset ?vs = mset vs"
      using mset_swap [of idx vs ?p] p "1.prems" by simp
    have "mset (bubbleUpFrom element ?p ?vs) = mset ?vs"
      using True p "1.prems" by (intro "1.IH" [OF _ refl refl]) auto
    with sw True show ?thesis by (simp add: bubbleUpFrom.simps [of element idx vs] Let_def)
  qed
qed

lemma sinkDownFrom_mset:
  "idx < length vs \<Longrightarrow> vs ! idx = element \<Longrightarrow> mset (sinkDownFrom element idx vs) = mset vs"
proof (induction element idx vs rule: sinkDownFrom.induct)
  case (1 element idx vs)
  define swap0 where "swap0 =
    (if 2 * idx + 1 < length vs \<and> priority (vs ! (2 * idx + 1)) < priority element
     then Some (2 * idx + 1) else None)"
  define swap where "swap =
    (if 2 * idx + 2 < length vs \<and>
        (swap0 = None \<and> priority (vs ! (2 * idx + 2)) < priority element \<or>
         swap0 \<noteq> None \<and> priority (vs ! (2 * idx + 2)) < priority (vs ! (2 * idx + 1)))
     then Some (2 * idx + 2) else swap0)"
  have unf: "sinkDownFrom element idx vs =
      (case swap of None \<Rightarrow> vs | Some sw \<Rightarrow> sinkDownFrom element sw (vs[idx := vs ! sw, sw := element]))"
    by (simp add: sinkDownFrom.simps [of element idx vs] swap_def swap0_def Let_def)
  show ?case
  proof (cases swap)
    case None
    with unf show ?thesis by simp
  next
    case (Some sw)
    then have sw: "idx < sw" "sw < length vs"
      by (auto simp: swap_def swap0_def split: if_splits)
    let ?vs = "vs[idx := vs ! sw, sw := element]"
    have m: "mset ?vs = mset vs"
      using mset_swap [of sw vs idx] sw "1.prems" by simp
    have sw': "swap = Some sw" by (rule Some)
    have "mset (sinkDownFrom element sw ?vs) = mset ?vs"
      using sw "1.prems"
      by (intro "1.IH" [OF refl refl refl refl sw' [unfolded swap_def swap0_def]]) auto
    with m Some unf show ?thesis by simp
  qed
qed


definition pq_keys :: "'k priorityQueue \<Rightarrow> 'k set" where
  "pq_keys q = elem_value ` set (pq_values q)"

definition pq_ok :: "'k priorityQueue \<Rightarrow> bool" where
  "pq_ok q =
     (distinct (map eid (pq_values q)) \<and> distinct (map elem_value (pq_values q)) \<and>
      (\<forall>e \<in> set (pq_values q). eid e < nextId q) \<and>
      (\<forall>v e. (valueMap q v = Some e) = (e \<in> set (pq_values q) \<and> elem_value e = v)))"

lemma distinct_map_mset:
  "mset xs = mset ys \<Longrightarrow> distinct (map f xs) = distinct (map f ys)"
proof -
  assume "mset xs = mset ys"
  then have "mset (map f xs) = mset (map f ys)" by simp
  then show ?thesis by (rule mset_eq_imp_distinct_iff)
qed

lemma pq_ok_permute:
  assumes "mset vs = mset (pq_values q)"
  shows "pq_ok (q\<lparr>pq_values := vs\<rparr>) = pq_ok q"
    and "pq_keys (q\<lparr>pq_values := vs\<rparr>) = pq_keys q"
proof -
  from assms have s: "set vs = set (pq_values q)" by (rule mset_eq_setD)
  show "pq_ok (q\<lparr>pq_values := vs\<rparr>) = pq_ok q"
    using s distinct_map_mset [OF assms, of eid] distinct_map_mset [OF assms, of elem_value]
    by (simp add: pq_ok_def)
  show "pq_keys (q\<lparr>pq_values := vs\<rparr>) = pq_keys q"
    using s by (simp add: pq_keys_def)
qed

lemma containsValue_keys: "pq_ok q \<Longrightarrow> containsValue q v = (v \<in> pq_keys q)"
  by (auto simp: pq_ok_def containsValue_def pq_keys_def)

lemma pq_ok_empty: "pq_ok PriorityQueue" "pq_keys PriorityQueue = {}"
  by (simp_all add: pq_ok_def PriorityQueue_def pq_keys_def)

lemma enqueue_ok:
  assumes "pq_ok q" "v \<notin> pq_keys q"
  shows "pq_ok (enqueue q v p)" and "pq_keys (enqueue q v p) = insert v (pq_keys q)"
proof -
  let ?e = "\<lparr>eid = nextId q, elem_value = v, priority = p\<rparr>"
  let ?vs = "pq_values q @ [?e]"
  let ?q1 = "q\<lparr>valueMap := (valueMap q)(v \<mapsto> ?e), nextId := Suc (nextId q), pq_values := ?vs\<rparr>"
  have m: "mset (bubbleUpFrom (?vs ! (length ?vs - 1)) (length ?vs - 1) ?vs) = mset (pq_values ?q1)"
    by (simp add: bubbleUpFrom_mset)
  have e: "enqueue q v p =
           ?q1\<lparr>pq_values := bubbleUpFrom (?vs ! (length ?vs - 1)) (length ?vs - 1) ?vs\<rparr>"
    by (simp add: enqueue_def Let_def)
  have ok1: "pq_ok ?q1"
    using assms unfolding pq_ok_def pq_keys_def by (auto simp: less_Suc_eq)
  have k1: "pq_keys ?q1 = insert v (pq_keys q)" by (auto simp: pq_keys_def)
  show "pq_ok (enqueue q v p)" unfolding e using pq_ok_permute(1) [OF m] ok1 by simp
  show "pq_keys (enqueue q v p) = insert v (pq_keys q)"
    unfolding e using pq_ok_permute(2) [OF m] k1 by simp
qed


lemma pop_then_sink_mset:
  assumes "vs \<noteq> []"
  shows "mset (if length (butlast vs) > 0
               then (let ws = (butlast vs)[0 := last vs] in sinkDownFrom (ws ! 0) 0 ws)
               else butlast vs) = mset (tl vs)"
proof (cases "tl vs = []")
  case True
  with assms have "butlast vs = []" by (cases vs) auto
  with True show ?thesis by simp
next
  case False
  from assms obtain x xs where vs: "vs = x # xs" by (cases vs) auto
  with False have xs: "xs \<noteq> []" by simp
  let ?ws = "(butlast vs)[0 := last vs]"
  have ws: "?ws = last xs # butlast xs" using vs xs by simp
  have "mset ?ws = mset (butlast xs @ [last xs])" unfolding ws by simp
  also have "\<dots> = mset xs" using xs by simp
  finally have m: "mset ?ws = mset (tl vs)" by (simp add: vs)
  have "mset (sinkDownFrom (?ws ! 0) 0 ?ws) = mset ?ws"
    by (rule sinkDownFrom_mset) (simp_all add: ws)
  with m vs xs show ?thesis by (simp add: Let_def)
qed

lemma dequeue_ok:
  assumes ok: "pq_ok q" and ne: "\<not> isEmpty q"
  obtains v q' where "dequeue q = (Some v, q')" "v \<in> pq_keys q" "pq_ok q'"
    "pq_keys q' = pq_keys q - {v}"
proof -
  from ne obtain x xs where vs: "pq_values q = x # xs"
    by (cases "pq_values q") (auto simp: isEmpty_def)
  let ?vs2 = "if length (butlast (pq_values q)) > 0
              then (let ws = (butlast (pq_values q))[0 := last (pq_values q)]
                    in sinkDownFrom (ws ! 0) 0 ws)
              else butlast (pq_values q)"
  let ?q1 = "q\<lparr>valueMap := (valueMap q)(elem_value x := None), pq_values := xs\<rparr>"
  let ?q' = "?q1\<lparr>pq_values := ?vs2\<rparr>"
  have m: "mset ?vs2 = mset (pq_values ?q1)"
    using pop_then_sink_mset [of "pq_values q"] vs by simp
  have d: "dequeue q = (Some (elem_value x), ?q')"
    using ne vs by (simp add: dequeue_def Let_def)
  have "elem_value x \<notin> elem_value ` set xs"
    using ok vs by (simp add: pq_ok_def)
  then have nx: "\<forall>e \<in> set xs. elem_value e \<noteq> elem_value x"
    by (metis image_eqI)
  have ok1: "pq_ok ?q1"
    using ok vs nx unfolding pq_ok_def by auto
  have k1: "pq_keys ?q1 = pq_keys q - {elem_value x}"
    using vs nx by (auto simp: pq_keys_def)
  show thesis
  proof (rule that [OF d])
    show "elem_value x \<in> pq_keys q" using vs by (simp add: pq_keys_def)
    show "pq_ok ?q'" using pq_ok_permute(1) [OF m] ok1 by simp
    show "pq_keys ?q' = pq_keys q - {elem_value x}" using pq_ok_permute(2) [OF m] k1 by simp
  qed
qed


lemma indexOf_found:
  assumes "e \<in> set vs" "distinct (map eid vs)"
  obtains i where "indexOf vs e = int i" "i < length vs" "vs ! i = e"
proof -
  let ?is = "filter (\<lambda>i. eid (vs ! i) = eid e) [0..<length vs]"
  from assms(1) obtain k where k: "k < length vs" "vs ! k = e" by (auto simp: in_set_conv_nth)
  then have "k \<in> set ?is" by simp
  then obtain i rest where isq: "?is = i # rest" by (cases ?is) auto
  then have "i \<in> set ?is" by simp
  then have i: "i < length vs" "eid (vs ! i) = eid e" by simp_all
  from assms(2) have "inj_on eid (set vs)" by (simp add: distinct_map)
  with i assms(1) have "vs ! i = e" by (auto dest: inj_onD)
  moreover have "indexOf vs e = int i" by (simp add: indexOf_def isq)
  ultimately show thesis using i(1) that by blast
qed

lemma updatePriority_ok:
  assumes ok: "pq_ok q" and v: "v \<in> pq_keys q"
  obtains q' where "updatePriority q v p = Inr (True, q')" "pq_ok q'" "pq_keys q' = pq_keys q"
proof -
  let ?vs = "pq_values q"
  from v obtain e where e: "e \<in> set ?vs" "elem_value e = v" by (auto simp: pq_keys_def)
  with ok have vm: "valueMap q v = Some e" by (simp add: pq_ok_def)
  define e1 where "e1 = e\<lparr>priority := p\<rparr>"
  define vs1 where
    "vs1 = map (\<lambda>x. if eid x = eid e then x\<lparr>priority := p\<rparr> else x) ?vs"
  define q1 where "q1 = q\<lparr>pq_values := vs1, valueMap := (valueMap q)(v \<mapsto> e1)\<rparr>"
  from ok have de: "distinct (map eid ?vs)" and dv: "distinct (map elem_value ?vs)"
    and lt: "\<forall>x \<in> set ?vs. eid x < nextId q"
    and cons: "\<And>w x. (valueMap q w = Some x) = (x \<in> set ?vs \<and> elem_value x = w)"
    by (simp_all add: pq_ok_def)
  from de have inj: "inj_on eid (set ?vs)" by (simp add: distinct_map)
  from dv have injv: "inj_on elem_value (set ?vs)" by (simp add: distinct_map)
  have same: "x = e" if "x \<in> set ?vs" "eid x = eid e" for x
    using inj that e(1) by (auto dest: inj_onD)
  have me: "map eid vs1 = map eid ?vs" by (simp add: vs1_def comp_def)
  have mv: "map elem_value vs1 = map elem_value ?vs" by (simp add: vs1_def comp_def)
  have set1: "set vs1 = (\<lambda>x. if x = e then e1 else x) ` set ?vs"
  proof -
    have "(if eid x = eid e then x\<lparr>priority := p\<rparr> else x) = (if x = e then e1 else x)"
      if "x \<in> set ?vs" for x
      using same [OF that] by (auto simp: e1_def)
    then show ?thesis unfolding vs1_def set_map by (rule image_cong [OF refl])
  qed
  have e1in: "e1 \<in> set vs1" unfolding set1 using e(1) by (auto simp: image_iff)
  have v1: "elem_value e1 = v" using e(2) by (simp add: e1_def)
  have cons1: "((valueMap q)(v \<mapsto> e1)) w = Some x \<longleftrightarrow> x \<in> set vs1 \<and> elem_value x = w"
    for w x
  proof (cases "w = v")
    case True
    have uniq: "x = e1" if "x \<in> set vs1" "elem_value x = v"
    proof -
      from that(1) obtain y where y: "y \<in> set ?vs" "x = (if y = e then e1 else y)"
        unfolding set1 by auto
      show ?thesis
      proof (cases "y = e")
        case True
        with y show ?thesis by simp
      next
        case False
        with y have "x = y" by simp
        with that(2) y(1) e injv have "y = e" by (auto dest: inj_onD)
        with False show ?thesis by simp
      qed
    qed
    have "(x \<in> set vs1 \<and> elem_value x = v) = (e1 = x)"
      using uniq e1in v1 by blast
    with True show ?thesis by simp
  next
    case False
    have "x \<in> set vs1 \<and> elem_value x = w \<longleftrightarrow> x \<in> set ?vs \<and> elem_value x = w"
    proof
      assume a: "x \<in> set vs1 \<and> elem_value x = w"
      then obtain y where y: "y \<in> set ?vs" "x = (if y = e then e1 else y)"
        unfolding set1 by auto
      from a False v1 y show "x \<in> set ?vs \<and> elem_value x = w" by (cases "y = e") auto
    next
      assume a: "x \<in> set ?vs \<and> elem_value x = w"
      with False e(2) have "x \<noteq> e" by auto
      with a show "x \<in> set vs1 \<and> elem_value x = w" unfolding set1 by (auto simp: image_iff)
    qed
    with False cons [of w x] show ?thesis by simp
  qed
  from de have de1: "distinct (map eid vs1)" by (simp only: me)
  from dv have dv1: "distinct (map elem_value vs1)" by (simp only: mv)
  have lt1: "\<forall>x \<in> set vs1. eid x < nextId q"
  proof
    fix x assume "x \<in> set vs1"
    then have "eid x \<in> set (map eid vs1)" by simp
    then have "eid x \<in> set (map eid ?vs)" by (simp only: me)
    with lt show "eid x < nextId q" by auto
  qed
  have ok1: "pq_ok q1"
    unfolding pq_ok_def q1_def using de1 dv1 lt1 cons1 by simp
  have k1: "pq_keys q1 = pq_keys q"
  proof -
    have "elem_value ` set vs1 = set (map elem_value vs1)" by simp
    also have "\<dots> = set (map elem_value ?vs)" by (simp only: mv)
    finally show ?thesis by (simp add: pq_keys_def q1_def)
  qed
  have pv: "pq_values q1 = vs1" by (simp add: q1_def)
  obtain i where i: "indexOf vs1 e1 = int i" "i < length vs1" "vs1 ! i = e1"
    using indexOf_found [OF e1in de1] by blast
  have mb: "mset (bubbleUpElement vs1 e1) = mset (pq_values q1)"
    using i bubbleUpFrom_mset [of i vs1 e1] by (simp add: bubbleUpElement_def Let_def pv)
  have ms: "sinkDownElement vs1 e1 = Inr (sinkDownFrom e1 i vs1)"
    using i by (simp add: sinkDownElement_def Let_def)
  have ms': "mset (sinkDownFrom e1 i vs1) = mset (pq_values q1)"
    using i sinkDownFrom_mset [of i vs1 e1] by (simp add: pv)
  have unf: "updatePriority q v p =
      (if p < priority e then Inr (True, q1\<lparr>pq_values := bubbleUpElement vs1 e1\<rparr>)
       else if p > priority e then
         (case sinkDownElement vs1 e1 of Inl er \<Rightarrow> Inl er
          | Inr vs2 \<Rightarrow> Inr (True, q1\<lparr>pq_values := vs2\<rparr>))
       else Inr (True, q1))"
    using vm by (simp add: updatePriority_def Let_def q1_def vs1_def e1_def split: sum.split)
  consider (up) "p < priority e" | (down) "\<not> p < priority e" "p > priority e"
    | (same) "\<not> p < priority e" "\<not> p > priority e" by blast
  then show thesis
  proof cases
    case up
    have "updatePriority q v p = Inr (True, q1\<lparr>pq_values := bubbleUpElement vs1 e1\<rparr>)"
      using up by (simp add: unf)
    moreover have "pq_ok (q1\<lparr>pq_values := bubbleUpElement vs1 e1\<rparr>)"
      using pq_ok_permute(1) [OF mb] ok1 by simp
    moreover have "pq_keys (q1\<lparr>pq_values := bubbleUpElement vs1 e1\<rparr>) = pq_keys q"
      using pq_ok_permute(2) [OF mb] k1 by simp
    ultimately show thesis by (rule that)
  next
    case down
    have "updatePriority q v p = Inr (True, q1\<lparr>pq_values := sinkDownFrom e1 i vs1\<rparr>)"
      using down ms by (simp add: unf)
    moreover have "pq_ok (q1\<lparr>pq_values := sinkDownFrom e1 i vs1\<rparr>)"
      using pq_ok_permute(1) [OF ms'] ok1 by simp
    moreover have "pq_keys (q1\<lparr>pq_values := sinkDownFrom e1 i vs1\<rparr>) = pq_keys q"
      using pq_ok_permute(2) [OF ms'] k1 by simp
    ultimately show thesis by (rule that)
  next
    case same
    have "updatePriority q v p = Inr (True, q1)"
      unfolding unf using same by (simp only: if_False)
    then show thesis using ok1 k1 by (rule that)
  qed
qed

section \<open>The search returns\<close>

text \<open>
  \<open>neighborSteps\<close> is the step relation of the search: from a position to each
  position that \<open>getNeighbors\<close> returns for it. \<open>searchInv\<close> says that the queue is
  well formed, that open and closed keys are disjoint, have a score and are reachable
  from the start. \<open>cameFromRanked\<close> says that every \<open>cameFrom\<close> entry points to a
  closed key that was closed earlier, which is why the loop of \<open>reconstructPath\<close>
  ends.
\<close>

definition neighborSteps :: "pathFinder \<Rightarrow> dungeonMap \<Rightarrow> (key \<times> key) set" where
  "neighborSteps pf m =
     {(p, q). \<exists>c. (fst q, snd q, c) \<in> set (getNeighbors pf m (fst p) (snd p))}"

definition searchInv :: "pathFinder \<Rightarrow> dungeonMap \<Rightarrow> key \<Rightarrow> search \<Rightarrow> bool" where
  "searchInv pf m start s =
     (pq_ok (openSet s) \<and> pq_keys (openSet s) \<inter> closedSet s = {} \<and>
      pq_keys (openSet s) \<subseteq> dom (gScore s) \<and>
      (\<forall>k \<in> pq_keys (openSet s) \<union> closedSet s. (start, k) \<in> (neighborSteps pf m)\<^sup>*))"

definition cameFromRanked :: "(key \<Rightarrow> nat) \<Rightarrow> nat \<Rightarrow> search \<Rightarrow> bool" where
  "cameFromRanked rk bound s =
     ((\<forall>k \<in> closedSet s. rk k < bound) \<and>
      (\<forall>k k'. cameFrom s k = Some k' \<longrightarrow> k' \<in> closedSet s \<and> (k \<in> closedSet s \<longrightarrow> rk k' < rk k)))"

lemma processNeighbor_inv:
  assumes inv: "searchInv pf m start s" and rk: "cameFromRanked rk bound s"
    and cur: "currentKey \<in> closedSet s"
    and step: "(currentKey, (nx, ny)) \<in> neighborSteps pf m"
  obtains s' where "processNeighbor pf ex ey currentKey (nx, ny, cost) s = Inr s'"
    "searchInv pf m start s'" "cameFromRanked rk bound s'" "closedSet s' = closedSet s"
proof -
  let ?nk = "posToKey nx ny"
  have nk: "?nk = (nx, ny)" by (simp add: posToKey_def)
  from inv have ok: "pq_ok (openSet s)" and disj: "pq_keys (openSet s) \<inter> closedSet s = {}"
    and dom: "pq_keys (openSet s) \<subseteq> dom (gScore s)"
    and reach: "\<forall>k \<in> pq_keys (openSet s) \<union> closedSet s. (start, k) \<in> (neighborSteps pf m)\<^sup>*"
    by (simp_all add: searchInv_def)
  from reach cur step have rn: "(start, ?nk) \<in> (neighborSteps pf m)\<^sup>*"
    unfolding nk by (meson UnI2 rtrancl.rtrancl_into_rtrancl)
  show thesis
  proof (cases "?nk \<in> closedSet s")
    case True
    then have "processNeighbor pf ex ey currentKey (nx, ny, cost) s = Inr s"
      by (simp add: processNeighbor_def)
    then show thesis using inv rk by (rule that) simp
  next
    case notClosed: False
    let ?t = "the (gScore s currentKey) + cost"
    let ?f = "?t + heuristic pf nx ny ex ey * heuristicWeight pf"
    let ?s1 = "s\<lparr>cameFrom := (cameFrom s)(?nk \<mapsto> currentKey),
                  gScore := (gScore s)(?nk \<mapsto> ?t),
                  fScore := (fScore s)(?nk \<mapsto> ?f)\<rparr>"
    have rk1: "cameFromRanked rk bound (?s1\<lparr>openSet := q\<rparr>)" for q
      using rk cur notClosed by (auto simp: cameFromRanked_def)
    show thesis
    proof (cases "containsValue (openSet s) ?nk")
      case False
      then have nin: "?nk \<notin> pq_keys (openSet s)" using ok by (simp add: containsValue_keys)
      let ?q = "enqueue (openSet s) ?nk ?f"
      have r: "processNeighbor pf ex ey currentKey (nx, ny, cost) s = Inr (?s1\<lparr>openSet := ?q\<rparr>)"
        using notClosed False by (simp add: processNeighbor_def Let_def)
      from enqueue_ok [OF ok nin, of ?f] have okq: "pq_ok ?q" and kq: "pq_keys ?q = insert ?nk (pq_keys (openSet s))"
        by simp_all
      have "searchInv pf m start (?s1\<lparr>openSet := ?q\<rparr>)"
        unfolding searchInv_def using okq kq disj dom reach rn notClosed by auto
      with r show thesis using rk1 by (rule that) simp
    next
      case True
      then have kin: "?nk \<in> pq_keys (openSet s)" using ok by (simp add: containsValue_keys)
      show thesis
      proof (cases "?t < the (gScore s ?nk)")
        case False
        with True notClosed have "processNeighbor pf ex ey currentKey (nx, ny, cost) s = Inr s"
          by (simp add: processNeighbor_def Let_def)
        then show thesis using inv rk by (rule that) simp
      next
        case better: True
        from updatePriority_ok [OF ok kin, of ?f]
        obtain q where q: "updatePriority (openSet s) ?nk ?f = Inr (True, q)" "pq_ok q"
          "pq_keys q = pq_keys (openSet s)" by blast
        have r: "processNeighbor pf ex ey currentKey (nx, ny, cost) s = Inr (?s1\<lparr>openSet := q\<rparr>)"
          using notClosed True better q(1) by (simp add: processNeighbor_def Let_def)
        have "searchInv pf m start (?s1\<lparr>openSet := q\<rparr>)"
          unfolding searchInv_def using q(2,3) disj dom reach by auto
        with r show thesis using rk1 by (rule that) simp
      qed
    qed
  qed
qed


lemma processNeighbors_inv:
  assumes "searchInv pf m start s" "cameFromRanked rk bound s" "currentKey \<in> closedSet s"
    and "\<forall>n \<in> set ns. (currentKey, (fst n, fst (snd n))) \<in> neighborSteps pf m"
  shows "\<exists>s'. processNeighbors pf ex ey currentKey ns s = Inr s' \<and> searchInv pf m start s' \<and>
              cameFromRanked rk bound s' \<and> closedSet s' = closedSet s"
  using assms
proof (induction ns arbitrary: s)
  case Nil
  then show ?case by simp
next
  case (Cons n ns)
  obtain nx ny cost where n: "n = (nx, ny, cost)" by (cases n)
  from Cons.prems(4) n have st: "(currentKey, (nx, ny)) \<in> neighborSteps pf m" by simp
  from processNeighbor_inv [OF Cons.prems(1-3) st, of ex ey cost]
  obtain s1 where s1: "processNeighbor pf ex ey currentKey (nx, ny, cost) s = Inr s1"
    "searchInv pf m start s1" "cameFromRanked rk bound s1" "closedSet s1 = closedSet s"
    by blast
  from Cons.prems(3) s1(4) have c1: "currentKey \<in> closedSet s1" by simp
  from Cons.prems(4) have rest: "\<forall>n \<in> set ns. (currentKey, (fst n, fst (snd n))) \<in> neighborSteps pf m"
    by simp
  from Cons.IH [OF s1(2,3) c1 rest] s1(1,4) n show ?case by auto
qed

lemma getNeighbors_steps:
  "\<forall>n \<in> set (getNeighbors pf m x y). ((x, y), (fst n, fst (snd n))) \<in> neighborSteps pf m"
  by (auto simp: neighborSteps_def)

lemma reconstructLoop_closed:
  fixes rk :: "key \<Rightarrow> nat"
  assumes cf: "\<forall>k k'. cf k = Some k' \<longrightarrow> k' \<in> C \<and> (k \<in> C \<longrightarrow> rk k' < rk k)"
  shows "k \<in> C \<Longrightarrow> \<exists>r. reconstructLoop cf k path = Some r"
proof (induction "rk k" arbitrary: k path rule: less_induct)
  case less
  show ?case
  proof (cases "cf k")
    case None
    then show ?thesis by (simp add: reconstructLoop.simps [of cf k])
  next
    case (Some k')
    with cf less.prems have "k' \<in> C" "rk k' < rk k" by blast+
    from less.hyps [OF this(2) this(1)] Some show ?thesis
      by (simp add: reconstructLoop.simps [of cf k])
  qed
qed

lemma reconstructPath_returns:
  fixes rk :: "key \<Rightarrow> nat"
  assumes cf: "\<forall>k k'. cf k = Some k' \<longrightarrow> k' \<in> C \<and> (k \<in> C \<longrightarrow> rk k' < rk k)"
  shows "\<exists>p. reconstructPath cf k = Some p"
proof -
  have "\<exists>r. reconstructLoop cf k [] = Some r"
  proof (cases "cf k")
    case None
    then show ?thesis by (simp add: reconstructLoop.simps [of cf k])
  next
    case (Some k')
    with cf have "k' \<in> C" by blast
    from reconstructLoop_closed [OF cf this] Some show ?thesis
      by (simp add: reconstructLoop.simps [of cf k])
  qed
  then show ?thesis by (auto simp: reconstructPath_def)
qed

lemma astar_returns:
  fixes rk :: "key \<Rightarrow> nat"
  assumes "searchInv pf m start s" "cameFromRanked rk bound s"
  shows "(\<exists>r. fst (astar pf m ex ey s) = Returns r) \<and>
         snd (astar pf m ex ey s) \<le> max (iterations s) (maxIterations pf) \<and>
         ((start, (ex, ey)) \<notin> (neighborSteps pf m)\<^sup>* \<longrightarrow> fst (astar pf m ex ey s) = Returns None)"
  using assms
proof (induction pf m ex ey s arbitrary: rk bound rule: astar.induct)
  case (1 pf m ex ey s)
  note inv = "1.prems"(1) and ranked = "1.prems"(2)
  show ?case
  proof (cases "\<not> isEmpty (openSet s) \<and> iterations s < maxIterations pf")
    case False
    have "astar pf m ex ey s = (Returns None, iterations s)"
      by (subst astar.simps) (simp only: False if_False)
    then show ?thesis by simp
  next
    case run: True
    let ?s1 = "s\<lparr>iterations := iterations s + 1\<rparr>"
    from inv have ok: "pq_ok (openSet s)" and disj: "pq_keys (openSet s) \<inter> closedSet s = {}"
      and dom: "pq_keys (openSet s) \<subseteq> dom (gScore s)"
      and reach: "\<forall>k \<in> pq_keys (openSet s) \<union> closedSet s. (start, k) \<in> (neighborSteps pf m)\<^sup>*"
      by (simp_all add: searchInv_def)
    from ranked have rb: "\<And>k. k \<in> closedSet s \<Longrightarrow> rk k < bound"
      and rc: "\<And>k k'. cameFrom s k = Some k' \<Longrightarrow> k' \<in> closedSet s"
      and rl: "\<And>k k'. cameFrom s k = Some k' \<Longrightarrow> k \<in> closedSet s \<Longrightarrow> rk k' < rk k"
      unfolding cameFromRanked_def by blast+
    from run have ne: "\<not> isEmpty (openSet s)" by simp
    from dequeue_ok [OF ok ne]
    obtain v q where dq: "dequeue (openSet s) = (Some v, q)" and vin: "v \<in> pq_keys (openSet s)"
      and okq: "pq_ok q" and kq: "pq_keys q = pq_keys (openSet s) - {v}"
      by blast
    obtain cx cy where v: "v = (cx, cy)" by (cases v)
    from vin disj have vnc: "v \<notin> closedSet s" by auto
    show ?thesis
    proof (cases "cx = ex \<and> cy = ey")
      case goal: True
      from rc rl have "\<forall>k k'. cameFrom s k = Some k' \<longrightarrow>
          k' \<in> closedSet s \<and> (k \<in> closedSet s \<longrightarrow> rk k' < rk k)"
        by blast
      from reconstructPath_returns [OF this, of v]
      obtain p where p: "reconstructPath (cameFrom s) v = Some p" by blast
      have a: "astar pf m ex ey s = (Returns (Some p), iterations s + 1)"
        using run dq v goal p
        by (simp add: astar.simps [of pf m ex ey s] keyToPos_def Let_def)
      from reach vin v goal have "(start, (ex, ey)) \<in> (neighborSteps pf m)\<^sup>*" by auto
      with a run show ?thesis by simp
    next
      case notGoal: False
      let ?s2 = "?s1\<lparr>openSet := q, closedSet := insert v (closedSet ?s1)\<rparr>"
      let ?ns = "getNeighbors pf m cx cy"
      have inv2: "searchInv pf m start ?s2"
        unfolding searchInv_def using okq kq disj dom reach vin by auto
      define rk2 where "rk2 = rk(v := bound)"
      have ranked2: "cameFromRanked rk2 (Suc bound) ?s2"
        unfolding cameFromRanked_def rk2_def
      proof (intro conjI ballI allI impI)
        fix k assume "k \<in> closedSet ?s2"
        then have "k = v \<or> k \<in> closedSet s" by simp
        then show "(rk(v := bound)) k < Suc bound"
          using rb [of k] by (auto simp: less_Suc_eq)
      next
        fix k k' assume c: "cameFrom ?s2 k = Some k'"
        then have c': "cameFrom s k = Some k'" by simp
        have k': "k' \<in> closedSet s" by (rule rc [OF c'])
        have lt: "k \<in> closedSet s \<longrightarrow> rk k' < rk k" using rl [OF c'] by blast
        from k' show "k' \<in> closedSet ?s2" by simp
        assume kc: "k \<in> closedSet ?s2"
        from k' vnc have ne: "k' \<noteq> v" by auto
        from k' have b: "rk k' < bound" by (rule rb)
        show "(rk(v := bound)) k' < (rk(v := bound)) k"
        proof (cases "k = v")
          case True
          with ne b show ?thesis by simp
        next
          case False
          with kc have "k \<in> closedSet s" by simp
          with lt ne False show ?thesis by simp
        qed
      qed
      have cur: "v \<in> closedSet ?s2" by simp
      have steps: "\<forall>n \<in> set ?ns. (v, (fst n, fst (snd n))) \<in> neighborSteps pf m"
        unfolding v by (rule getNeighbors_steps)
      from processNeighbors_inv [OF inv2 ranked2 cur steps, of ex ey]
      obtain s3 where s3: "processNeighbors pf ex ey v ?ns ?s2 = Inr s3"
        "searchInv pf m start s3" "cameFromRanked rk2 (Suc bound) s3"
        by blast
      have it3: "iterations s3 = iterations s + 1"
        using processNeighbors_iterations [OF s3(1)] by simp
      have a: "astar pf m ex ey s = astar pf m ex ey s3"
        using run dq v notGoal s3(1)
        by (auto simp: astar.simps [of pf m ex ey s] keyToPos_def Let_def)
      have kp: "(cx, cy) = keyToPos v" by (simp add: keyToPos_def v)
      have dq': "(Some v, q) = dequeue (openSet ?s1)" using dq by simp
      from "1.IH" [OF run refl dq' refl refl kp notGoal refl refl s3(1) s3(2) s3(3)]
      have ih: "(\<exists>r. fst (astar pf m ex ey s3) = Returns r) \<and>
         snd (astar pf m ex ey s3) \<le> max (iterations s3) (maxIterations pf) \<and>
         ((start, (ex, ey)) \<notin> (neighborSteps pf m)\<^sup>* \<longrightarrow> fst (astar pf m ex ey s3) = Returns None)" .
      from run it3 have "max (iterations s3) (maxIterations pf) \<le> max (iterations s) (maxIterations pf)"
        by simp
      with ih show ?thesis unfolding a by auto
    qed
  qed
qed

lemma initial_search_inv:
  fixes rk :: "key \<Rightarrow> nat"
  defines "s0 k h \<equiv> \<lparr>openSet = enqueue PriorityQueue k h, closedSet = {}, gScore = [k \<mapsto> 0],
                     fScore = [k \<mapsto> h], cameFrom = Map.empty, iterations = 0\<rparr>"
  shows "searchInv pf m k (s0 k h)" and "cameFromRanked rk 0 (s0 k h)"
proof -
  have "pq_ok (enqueue PriorityQueue k h)" "pq_keys (enqueue PriorityQueue k h) = {k}"
    using enqueue_ok [OF pq_ok_empty(1), of k h] by (simp_all add: pq_ok_empty(2))
  then show "searchInv pf m k (s0 k h)" by (simp add: searchInv_def s0_def)
  show "cameFromRanked rk 0 (s0 k h)" by (simp add: cameFromRanked_def s0_def)
qed

lemma findPathRun_returns:
  "(\<exists>r. fst (findPathRun pf sx sy ex ey opts) = Returns r) \<and>
   snd (findPathRun pf sx sy ex ey opts) \<le> max 0 (maxIterations (setOptions pf opts)) \<and>
   (pf_map pf = Some m \<and> ((sx, sy), (ex, ey)) \<notin> (neighborSteps (setOptions pf opts) m)\<^sup>* \<longrightarrow>
      fst (findPathRun pf sx sy ex ey opts) = Returns None)"
proof (cases "pf_map pf")
  case None
  then show ?thesis by (simp add: findPathRun_def setOptions_def)
next
  case (Some m')
  let ?pf = "setOptions pf opts"
  have pm: "pf_map ?pf = Some m'" using Some by (simp add: setOptions_def)
  show ?thesis
  proof (cases "\<not> isWalkablePos ?pf m' sx sy \<or> \<not> isWalkablePos ?pf m' ex ey")
    case True
    then have "findPathRun pf sx sy ex ey opts = (Returns None, 0)"
      using pm by (auto simp: findPathRun_def Let_def)
    then show ?thesis by simp
  next
    case False
    let ?k = "posToKey sx sy"
    let ?h = "heuristic ?pf sx sy ex ey"
    let ?s0 = "\<lparr>openSet = enqueue PriorityQueue ?k ?h, closedSet = {}, gScore = [?k \<mapsto> 0],
                fScore = [?k \<mapsto> ?h], cameFrom = Map.empty, iterations = 0\<rparr>"
    have r: "findPathRun pf sx sy ex ey opts = astar ?pf m' ex ey ?s0"
      using pm False by (simp add: findPathRun_def Let_def)
    have k: "?k = (sx, sy)" by (simp add: posToKey_def)
    have i1: "searchInv ?pf m' ?k ?s0" by (rule initial_search_inv(1))
    have i2: "cameFromRanked (\<lambda>_. 0) 0 ?s0" by (rule initial_search_inv(2))
    from astar_returns [OF i1 i2, of ex ey]
    show ?thesis unfolding r k using Some by auto
  qed
qed

lemma findPath_same_cell:
  assumes "pf_map pf = Some m" "isWalkablePos (setOptions pf opts) m x y"
    "0 < maxIterations (setOptions pf opts)"
  shows "findPath pf x y x y opts = Returns (Some [])"
proof -
  let ?pf = "setOptions pf opts"
  let ?k = "posToKey x y"
  let ?h = "heuristic ?pf x y x y"
  let ?q = "enqueue PriorityQueue ?k ?h"
  let ?s0 = "\<lparr>openSet = ?q, closedSet = {}, gScore = [?k \<mapsto> 0],
              fScore = [?k \<mapsto> ?h], cameFrom = Map.empty, iterations = 0\<rparr>"
  have pm: "pf_map ?pf = Some m" using assms(1) by (simp add: setOptions_def)
  have r: "findPath pf x y x y opts = fst (astar ?pf m x y ?s0)"
    using pm assms(2) by (simp add: findPath_def findPathRun_def Let_def)
  have ok: "pq_ok ?q" and keys: "pq_keys ?q = {?k}"
    using enqueue_ok [OF pq_ok_empty(1), of ?k ?h] by (simp_all add: pq_ok_empty(2))
  have ne: "\<not> isEmpty ?q"
    using keys by (auto simp: isEmpty_def pq_keys_def)
  from dequeue_ok [OF ok ne]
  obtain v q' where d: "dequeue ?q = (Some v, q')" and vin: "v \<in> pq_keys ?q" by blast
  from vin keys have "v = ?k" by simp
  with d have dq: "dequeue ?q = (Some ?k, q')" by simp
  have rp: "reconstructPath Map.empty ?k = Some []"
    by (simp add: reconstructPath_def reconstructLoop.simps)
  have "astar ?pf m x y ?s0 = (Returns (Some []), 1)"
    using ne assms(3) dq rp
    by (subst astar.simps) (simp add: Let_def keyToPos_def posToKey_def)
  with r show ?thesis by simp
qed

definition openTile :: mapTile where
  "openTile = \<lparr>walkable = True, hasTrap = False, tile_hidden = False, moveCost = None,
               transparent = True\<rparr>"

definition openMap :: dungeonMap where
  "openMap = \<lparr>isInBounds = (\<lambda>x y. 0 \<le> x \<and> x < 3 \<and> 0 \<le> y \<and> y < 3),
              getTile = (\<lambda>x y. Some openTile)\<rparr>"

definition splitMap :: dungeonMap where
  "splitMap = \<lparr>isInBounds = (\<lambda>x y. 0 \<le> x \<and> x < 3 \<and> y = 0),
               getTile = (\<lambda>x y. Some (openTile\<lparr>walkable := (x \<noteq> 1)\<rparr>))\<rparr>"

text \<open>
  C4, as the code has it. With a map, a walkable coordinate and a positive iteration cap,
  \<open>findPath\<close> from a coordinate to itself returns the empty path: the start is
  dequeued first and is the goal, \<open>cameFrom\<close> has no entry yet, and
  \<open>reconstructPath\<close> adds the start only to a path that is not empty. No step is
  taken, so no cost is incurred.
\<close>

theorem findPath_same_start_and_goal:
  assumes "pf_map pf = Some m" and "isWalkablePos (setOptions pf opts) m x y"
    and "0 < maxIterations (setOptions pf opts)"
  shows "findPath pf x y x y opts = Returns (Some [])"
  using assms by (rule findPath_same_cell)

theorem findPath_same_start_and_goal_witness:
  "pf_map (PathFinder (Some openMap)) = Some openMap \<and>
   isWalkablePos (setOptions (PathFinder (Some openMap)) noOptions) openMap 0 0 \<and>
   0 < maxIterations (setOptions (PathFinder (Some openMap)) noOptions) \<and>
   findPath (PathFinder (Some openMap)) 0 0 0 0 noOptions = Returns (Some [])"
proof -
  have h: "pf_map (PathFinder (Some openMap)) = Some openMap"
    "isWalkablePos (setOptions (PathFinder (Some openMap)) noOptions) openMap 0 0"
    "0 < maxIterations (setOptions (PathFinder (Some openMap)) noOptions)"
    by (simp_all add: PathFinder_def setOptions_def noOptions_def isWalkablePos_def openMap_def
          openTile_def isOccupiedByEntity_def)
  from findPath_same_start_and_goal [OF h] h show ?thesis by simp
qed

text \<open>
  C4 as the specification states it fails: from \<open>(0, 0)\<close> to \<open>(0, 0)\<close> on an open
  map the path returned is empty, not the single element \<open>(0, 0)\<close>.
\<close>

theorem findPath_single_element_counterexample:
  "isWalkablePos (PathFinder (Some openMap)) openMap 0 0 \<and>
   findPath (PathFinder (Some openMap)) 0 0 0 0 noOptions = Returns (Some []) \<and>
   [] \<noteq> [(0 :: int, 0 :: int)]"
proof -
  have h: "pf_map (PathFinder (Some openMap)) = Some openMap"
    "isWalkablePos (setOptions (PathFinder (Some openMap)) noOptions) openMap 0 0"
    "0 < maxIterations (setOptions (PathFinder (Some openMap)) noOptions)"
    by (simp_all add: PathFinder_def setOptions_def noOptions_def isWalkablePos_def openMap_def
          openTile_def isOccupiedByEntity_def)
  have w: "isWalkablePos (PathFinder (Some openMap)) openMap 0 0"
    by (simp add: PathFinder_def isWalkablePos_def openMap_def openTile_def isOccupiedByEntity_def)
  from findPath_same_cell [OF h] w show ?thesis by simp
qed

text \<open>
  C8. Every call of \<open>findPath\<close> returns, a path or \<open>null\<close>: it raises no error and
  does not hang. The loop counter never exceeds the configured iteration cap. When the
  goal cannot be reached from the start by the steps of \<open>getNeighbors\<close>, the call
  returns \<open>null\<close>.
\<close>

theorem findPath_terminates_within_cap:
  "(\<exists>r. findPath pf sx sy ex ey opts = Returns r) \<and>
   snd (findPathRun pf sx sy ex ey opts) \<le> max 0 (maxIterations (setOptions pf opts)) \<and>
   (pf_map pf = Some m \<and> ((sx, sy), (ex, ey)) \<notin> (neighborSteps (setOptions pf opts) m)\<^sup>* \<longrightarrow>
      findPath pf sx sy ex ey opts = Returns None)"
  unfolding findPath_def by (rule findPathRun_returns)

lemma splitMap_no_steps: "getNeighbors (PathFinder (Some splitMap)) splitMap 0 0 = []"
  by (simp add: getNeighbors_def checkNeighbor_def isWalkablePos_def splitMap_def openTile_def
        PathFinder_def isOccupiedByEntity_def Let_def)

theorem findPath_terminates_within_cap_witness:
  "pf_map (PathFinder (Some splitMap)) = Some splitMap \<and>
   isWalkablePos (PathFinder (Some splitMap)) splitMap 0 0 \<and>
   isWalkablePos (PathFinder (Some splitMap)) splitMap 2 0 \<and>
   ((0, 0), (2, 0)) \<notin> (neighborSteps (setOptions (PathFinder (Some splitMap)) noOptions) splitMap)\<^sup>* \<and>
   findPath (PathFinder (Some splitMap)) 0 0 2 0 noOptions = Returns None"
proof -
  let ?pf = "PathFinder (Some splitMap)"
  have so: "setOptions ?pf noOptions = ?pf"
    by (simp add: setOptions_def noOptions_def PathFinder_def)
  have m: "pf_map ?pf = Some splitMap" by (simp add: PathFinder_def)
  have w: "isWalkablePos ?pf splitMap 0 0" "isWalkablePos ?pf splitMap 2 0"
    by (simp_all add: isWalkablePos_def splitMap_def openTile_def PathFinder_def
          isOccupiedByEntity_def posToKey_def)
  have none: "((0, 0), q) \<notin> neighborSteps ?pf splitMap" for q
    by (simp add: neighborSteps_def splitMap_no_steps)
  have u: "((0, 0), (2, 0)) \<notin> (neighborSteps ?pf splitMap)\<^sup>*"
  proof
    assume "((0, 0), (2, 0)) \<in> (neighborSteps ?pf splitMap)\<^sup>*"
    then show False
      by (rule converse_rtranclE) (simp_all add: none)
  qed
  from findPath_terminates_within_cap [of ?pf 0 0 2 0 noOptions splitMap, THEN conjunct2, THEN conjunct2]
    m u so
  have "findPath ?pf 0 0 2 0 noOptions = Returns None" by simp
  with m w u so show ?thesis by simp
qed

end
